theory Spec2Isabelle
  imports Main "HOL-Library.Monad_Syntax"
begin

section \<open>Data model\<close>

text \<open>
  A tree node of \<^verbatim>\<open>node.py\<close> (class \<^verbatim>\<open>AVLTreeNode\<close>): key, item, the two child
  references and the cached \<^verbatim>\<open>height\<close> and \<^verbatim>\<open>size\<close> fields. Python's \<^verbatim>\<open>None\<close> child is
  \<open>NoneT\<close>. Every node object is referenced by exactly one parent field (or by the root
  field of the tree), so a heap of node objects is a value of this datatype, and an
  assignment to a field of a node returns the node with that field replaced.
\<close>

datatype ('k, 'i) tree =
    NoneT
  | AVLTreeNode (key: 'k) (item: 'i) (left: "('k, 'i) tree") (right: "('k, 'i) tree")
      (height: int) (size_field: int)

text \<open>Field assignments \<^verbatim>\<open>current.left = x\<close>, \<^verbatim>\<open>current.height = h\<close>, and so on.\<close>

fun set_left :: "('k, 'i) tree \<Rightarrow> ('k, 'i) tree \<Rightarrow> ('k, 'i) tree" where
  "set_left NoneT x = NoneT"
| "set_left (AVLTreeNode k v l r h s) x = AVLTreeNode k v x r h s"

fun set_right :: "('k, 'i) tree \<Rightarrow> ('k, 'i) tree \<Rightarrow> ('k, 'i) tree" where
  "set_right NoneT x = NoneT"
| "set_right (AVLTreeNode k v l r h s) x = AVLTreeNode k v l x h s"

fun set_height :: "('k, 'i) tree \<Rightarrow> int \<Rightarrow> ('k, 'i) tree" where
  "set_height NoneT x = NoneT"
| "set_height (AVLTreeNode k v l r h s) x = AVLTreeNode k v l r x s"

fun set_size :: "('k, 'i) tree \<Rightarrow> int \<Rightarrow> ('k, 'i) tree" where
  "set_size NoneT x = NoneT"
| "set_size (AVLTreeNode k v l r h s) x = AVLTreeNode k v l r h x"

fun set_key_item :: "('k, 'i) tree \<Rightarrow> 'k \<Rightarrow> 'i \<Rightarrow> ('k, 'i) tree" where
  "set_key_item NoneT k' v' = NoneT"
| "set_key_item (AVLTreeNode k v l r h s) k' v' = AVLTreeNode k' v' l r h s"

text \<open>
  The exceptions the code raises, one constructor for each \<^verbatim>\<open>raise\<close> statement and one
  for the attribute access on \<^verbatim>\<open>None\<close>:
  \<^item> \<open>Duplicate_item\<close>: \<^verbatim>\<open>ValueError("Duplicating item ... for insertion.")\<close>;
  \<^item> \<open>Non_existent_item\<close>: \<^verbatim>\<open>ValueError('Deleting non-existent item')\<close>;
  \<^item> \<open>Rotate_none\<close>: \<^verbatim>\<open>ValueError("Current and child should not be None")\<close>;
  \<^item> \<open>Range_precondition\<close>: the \<^verbatim>\<open>ValueError\<close> made from the failed assertion of
    \<^verbatim>\<open>range_between\<close>;
  \<^item> \<open>Key_not_found\<close>: \<^verbatim>\<open>KeyError('Key not found: ...')\<close>;
  \<^item> \<open>Attribute_error\<close>: Python's \<^verbatim>\<open>AttributeError\<close> for a field of \<^verbatim>\<open>None\<close>.
\<close>

datatype error =
    Duplicate_item
  | Non_existent_item
  | Rotate_none
  | Range_precondition
  | Key_not_found
  | Attribute_error

text \<open>
  The outcome of a call: \<open>Return x\<close>, or \<open>Raise e res\<close>. The methods update nodes in
  place, so a call that raises may have written fields before. \<open>res = Some s\<close> says that
  the objects the call was given are in state \<open>s\<close> when the exception leaves the call;
  \<open>res = None\<close> says that the exception left in the middle of a rotation, where this
  model does not follow the state of the objects.
\<close>

datatype ('a, 's) outcome = Return 'a | Raise error "'s option"

section \<open>Heights and sizes\<close>

fun get_height :: "('k, 'i) tree \<Rightarrow> int" where
  "get_height NoneT = 0"
| "get_height (AVLTreeNode k v l r h s) = h"

fun get_balance :: "('k, 'i) tree \<Rightarrow> int" where
  "get_balance NoneT = 0"
| "get_balance (AVLTreeNode k v l r h s) = get_height r - get_height l"

fun is_leaf :: "('k, 'i) tree \<Rightarrow> bool" where
  "is_leaf current = (left current = NoneT \<and> right current = NoneT)"

text \<open>
  \<^verbatim>\<open>AVLTree.size\<close> writes the \<^verbatim>\<open>size\<close> field of \<^verbatim>\<open>current\<close> from the cached sizes of the
  children and returns it: the result is the returned number and the node after the write.
\<close>

fun size_node :: "('k, 'i) tree \<Rightarrow> int \<times> ('k, 'i) tree" where
  "size_node NoneT = (0, NoneT)"
| "size_node (AVLTreeNode k v l r h s) =
     (let s' = (if is_leaf (AVLTreeNode k v l r h s) then 1
                else if l = NoneT then size_field r + 1
                else if r = NoneT then size_field l + 1
                else size_field l + size_field r + 1)
      in (s', AVLTreeNode k v l r h s'))"

text \<open>The statement \<^verbatim>\<open>current.height = max(get_height(current.left), get_height(current.right)) + 1\<close>.\<close>

definition update_height :: "('k, 'i) tree \<Rightarrow> ('k, 'i) tree" where
  "update_height current =
     set_height current (max (get_height (left current)) (get_height (right current)) + 1)"

text \<open>The statement \<^verbatim>\<open>current.size = self.size(current)\<close>.\<close>

definition update_size :: "('k, 'i) tree \<Rightarrow> ('k, 'i) tree" where
  "update_size current = (case size_node current of (s, current') \<Rightarrow> set_size current' s)"

section \<open>Rotations and rebalancing\<close>

text \<open>
  \<^verbatim>\<open>rebalance\<close>, \<^verbatim>\<open>left_rotate\<close> and \<^verbatim>\<open>right_rotate\<close> call each other: each rotation ends
  with \<^verbatim>\<open>return self.rebalance(child)\<close>. The three are one function on the call that is
  made; the result \<open>None\<close> stands for a call that does not return.

  In a rotation \<^verbatim>\<open>child\<close> and \<^verbatim>\<open>current\<close> are two names for linked objects: after
  \<^verbatim>\<open>child.left = current\<close> a write to \<^verbatim>\<open>current\<close> is seen through \<^verbatim>\<open>child.left\<close>. The model
  writes that link again (\<open>child = set_left child current\<close>) after each write to
  \<open>current\<close>, so that \<open>child\<close> always holds the object as the heap has it.
\<close>

text \<open>
  The assignments of \<^verbatim>\<open>left_rotate\<close> between the check of the precondition and the final
  call of \<^verbatim>\<open>rebalance\<close>: the links, the two heights (\<^verbatim>\<open>current\<close> first, then \<^verbatim>\<open>child\<close>),
  the two sizes (\<^verbatim>\<open>child\<close> first, then \<^verbatim>\<open>current\<close>). The result is \<^verbatim>\<open>child\<close>.
\<close>

definition left_rotate_writes :: "('k, 'i) tree \<Rightarrow> ('k, 'i) tree" where
  "left_rotate_writes current =
     (let child = right current;
          center = left child;
          child = set_left child current;
          current = set_right current center;
          child = set_left child current;
          current = update_height current;
          child = set_left child current;
          child = update_height child;
          child = update_size child;
          current = update_size current;
          child = set_left child current
      in child)"

text \<open>
  The assignments of \<^verbatim>\<open>right_rotate\<close>: the links, the two heights (\<^verbatim>\<open>child\<close> first, then
  \<^verbatim>\<open>current\<close>: the height of \<^verbatim>\<open>child\<close> is computed from the height that \<^verbatim>\<open>current\<close> had
  before the rotation), the two sizes.
\<close>

definition right_rotate_writes :: "('k, 'i) tree \<Rightarrow> ('k, 'i) tree" where
  "right_rotate_writes current =
     (let child = left current;
          center = right child;
          child = set_right child current;
          current = set_left current center;
          child = set_right child current;
          child = update_height child;
          current = update_height current;
          child = set_right child current;
          child = update_size child;
          current = update_size current;
          child = set_right child current
      in child)"

datatype ('k, 'i) call =
    Rebalance "('k, 'i) tree"
  | Left_rotate "('k, 'i) tree"
  | Right_rotate "('k, 'i) tree"

partial_function (option) run ::
  "('k, 'i) call \<Rightarrow> (('k, 'i) tree, ('k, 'i) tree) outcome option" where
  "run c =
    (case c of
       Left_rotate current \<Rightarrow>
         (if current = NoneT \<or> right current = NoneT then Some (Raise Rotate_none (Some current))
          else
            do {
              res \<leftarrow> run (Rebalance (left_rotate_writes current));
              (case res of
                 Return t \<Rightarrow> Some (Return t)
               | Raise e s \<Rightarrow> Some (Raise e None))
            })
     | Right_rotate current \<Rightarrow>
         (if current = NoneT \<or> left current = NoneT then Some (Raise Rotate_none (Some current))
          else
            do {
              res \<leftarrow> run (Rebalance (right_rotate_writes current));
              (case res of
                 Return t \<Rightarrow> Some (Return t)
               | Raise e s \<Rightarrow> Some (Raise e None))
            })
     | Rebalance current \<Rightarrow>
         (if current = NoneT then Some (Raise Attribute_error (Some NoneT))
          else
            let current = update_size current in
            if get_balance current \<ge> 2 then
              (let child = right current in
               if child = NoneT then Some (Raise Attribute_error (Some current))
               else if get_height (left child) > get_height (right child) then
                 do {
                   res \<leftarrow> run (Right_rotate child);
                   (case res of
                      Raise e s \<Rightarrow> Some (Raise e None)
                    | Return child' \<Rightarrow> run (Left_rotate (set_right current child')))
                 }
               else run (Left_rotate current))
            else if get_balance current \<le> - 2 then
              (let child = left current in
               if child = NoneT then Some (Raise Attribute_error (Some current))
               else if get_height (right child) > get_height (left child) then
                 do {
                   res \<leftarrow> run (Left_rotate child);
                   (case res of
                      Raise e s \<Rightarrow> Some (Raise e None)
                    | Return child' \<Rightarrow> run (Right_rotate (set_left current child')))
                 }
               else run (Right_rotate current))
            else Some (Return current)))"

declare run.simps [code]

definition rebalance :: "('k, 'i) tree \<Rightarrow> (('k, 'i) tree, ('k, 'i) tree) outcome option" where
  "rebalance current = run (Rebalance current)"

definition left_rotate :: "('k, 'i) tree \<Rightarrow> (('k, 'i) tree, ('k, 'i) tree) outcome option" where
  "left_rotate current = run (Left_rotate current)"

definition right_rotate :: "('k, 'i) tree \<Rightarrow> (('k, 'i) tree, ('k, 'i) tree) outcome option" where
  "right_rotate current = run (Right_rotate current)"

section \<open>Insertion and deletion\<close>

text \<open>
  The last three statements of \<^verbatim>\<open>insert_aux\<close>: the height and the size of \<^verbatim>\<open>current\<close>
  are written, then \<^verbatim>\<open>rebalance\<close> gives the root of the subtree. \<open>len\<close> is the field
  \<^verbatim>\<open>self.length\<close> of the tree object, passed through every call.
\<close>

definition insert_finish ::
  "('k, 'i) tree \<Rightarrow> int \<Rightarrow> (('k, 'i) tree \<times> int, ('k, 'i) tree \<times> int) outcome option" where
  "insert_finish current len =
     (let current = update_height current;
          current = update_size current
      in case rebalance current of
           None \<Rightarrow> None
         | Some (Raise e s) \<Rightarrow> Some (Raise e None)
         | Some (Return t) \<Rightarrow> Some (Return (t, len)))"

text \<open>
  Modelled from the spec: \<^verbatim>\<open>node.py\<close> is not among the sources; a node is created as a
  leaf with \<open>height = size = 1\<close>. (\<^verbatim>\<open>insert_aux\<close> writes both fields of the new node
  before it is returned.)
\<close>

definition new_node :: "'k \<Rightarrow> 'i \<Rightarrow> ('k, 'i) tree" where
  "new_node k v = AVLTreeNode k v NoneT NoneT 1 1"

fun insert_aux ::
  "int \<Rightarrow> ('k::linorder, 'i) tree \<Rightarrow> 'k \<Rightarrow> 'i
     \<Rightarrow> (('k, 'i) tree \<times> int, ('k, 'i) tree \<times> int) outcome option" where
  "insert_aux len NoneT k v = insert_finish (new_node k v) (len + 1)"
| "insert_aux len (AVLTreeNode ck cv l r h s) k v =
     (let current = AVLTreeNode ck cv l r h s in
      if k > ck then
        (case insert_aux len r k v of
           None \<Rightarrow> None
         | Some (Raise e res) \<Rightarrow>
             Some (Raise e (map_option (\<lambda>(r', len'). (set_right current r', len')) res))
         | Some (Return (r', len')) \<Rightarrow> insert_finish (set_right current r') len')
      else if k < ck then
        (case insert_aux len l k v of
           None \<Rightarrow> None
         | Some (Raise e res) \<Rightarrow>
             Some (Raise e (map_option (\<lambda>(l', len'). (set_left current l', len')) res))
         | Some (Return (l', len')) \<Rightarrow> insert_finish (set_left current l') len')
      else Some (Raise Duplicate_item (Some (current, len))))"

fun get_minimal :: "('k, 'i) tree \<Rightarrow> ('k, 'i) tree" where
  "get_minimal NoneT = NoneT"
| "get_minimal (AVLTreeNode k v l r h s) =
     (if l = NoneT then AVLTreeNode k v l r h s else get_minimal l)"

fun get_maximal :: "('k, 'i) tree \<Rightarrow> ('k, 'i) tree" where
  "get_maximal NoneT = NoneT"
| "get_maximal (AVLTreeNode k v l r h s) =
     (if r = NoneT then AVLTreeNode k v l r h s else get_maximal r)"

definition get_successor :: "('k, 'i) tree \<Rightarrow> ('k, 'i) tree" where
  "get_successor current =
     (if right current \<noteq> NoneT then get_minimal (right current) else NoneT)"

text \<open>The last two statements of \<^verbatim>\<open>delete_aux\<close>: the height is written, then \<^verbatim>\<open>rebalance\<close>.\<close>

definition delete_finish ::
  "('k, 'i) tree \<Rightarrow> int \<Rightarrow> (('k, 'i) tree \<times> int, ('k, 'i) tree \<times> int) outcome option" where
  "delete_finish current len =
     (let current = update_height current
      in case rebalance current of
           None \<Rightarrow> None
         | Some (Raise e s) \<Rightarrow> Some (Raise e None)
         | Some (Return t) \<Rightarrow> Some (Return (t, len)))"

fun delete_aux ::
  "int \<Rightarrow> ('k::linorder, 'i) tree \<Rightarrow> 'k
     \<Rightarrow> (('k, 'i) tree \<times> int, ('k, 'i) tree \<times> int) outcome option" where
  "delete_aux len NoneT k = Some (Raise Non_existent_item (Some (NoneT, len)))"
| "delete_aux len (AVLTreeNode ck cv l r h s) k =
     (let current = AVLTreeNode ck cv l r h s in
      if k < ck then
        (case delete_aux len l k of
           None \<Rightarrow> None
         | Some (Raise e res) \<Rightarrow>
             Some (Raise e (map_option (\<lambda>(l', len'). (set_left current l', len')) res))
         | Some (Return (l', len')) \<Rightarrow> delete_finish (set_left current l') len')
      else if k > ck then
        (case delete_aux len r k of
           None \<Rightarrow> None
         | Some (Raise e res) \<Rightarrow>
             Some (Raise e (map_option (\<lambda>(r', len'). (set_right current r', len')) res))
         | Some (Return (r', len')) \<Rightarrow> delete_finish (set_right current r') len')
      else if is_leaf current then Some (Return (NoneT, len - 1))
      else if l = NoneT then Some (Return (r, len - 1))
      else if r = NoneT then Some (Return (l, len - 1))
      else
        (let succ = get_successor current;
             current = set_key_item current (key succ) (item succ)
         in case delete_aux len r (key succ) of
              None \<Rightarrow> None
            | Some (Raise e res) \<Rightarrow>
                Some (Raise e (map_option (\<lambda>(r', len'). (set_right current r', len')) res))
            | Some (Return (r', len')) \<Rightarrow>
                delete_finish (update_size (set_right current r')) len'))"

section \<open>The tree object\<close>

text \<open>The fields \<^verbatim>\<open>root\<close> and \<^verbatim>\<open>length\<close> of \<^verbatim>\<open>BinarySearchTree\<close>.\<close>

record ('k, 'i) avl =
  root :: "('k, 'i) tree"
  length_field :: int

definition init :: "('k, 'i) avl" where
  "init = \<lparr>root = NoneT, length_field = 0\<rparr>"

definition is_empty :: "('k, 'i) avl \<Rightarrow> bool" where
  "is_empty t = (root t = NoneT)"

definition len :: "('k, 'i) avl \<Rightarrow> int" where
  "len t = length_field t"

definition mk_avl :: "('k, 'i) tree \<times> int \<Rightarrow> ('k, 'i) avl" where
  "mk_avl p = \<lparr>root = fst p, length_field = snd p\<rparr>"

text \<open>\<^verbatim>\<open>__setitem__\<close>: \<^verbatim>\<open>self.root = self.insert_aux(self.root, key, item)\<close>.\<close>

definition setitem ::
  "('k::linorder, 'i) avl \<Rightarrow> 'k \<Rightarrow> 'i \<Rightarrow> (('k, 'i) avl, ('k, 'i) avl) outcome option" where
  "setitem t k v =
     (case insert_aux (length_field t) (root t) k v of
        None \<Rightarrow> None
      | Some (Raise e res) \<Rightarrow> Some (Raise e (map_option mk_avl res))
      | Some (Return p) \<Rightarrow> Some (Return (mk_avl p)))"

text \<open>\<^verbatim>\<open>__delitem__\<close>: \<^verbatim>\<open>self.root = self.delete_aux(self.root, key)\<close>.\<close>

definition delitem ::
  "('k::linorder, 'i) avl \<Rightarrow> 'k \<Rightarrow> (('k, 'i) avl, ('k, 'i) avl) outcome option" where
  "delitem t k =
     (case delete_aux (length_field t) (root t) k of
        None \<Rightarrow> None
      | Some (Raise e res) \<Rightarrow> Some (Raise e (map_option mk_avl res))
      | Some (Return p) \<Rightarrow> Some (Return (mk_avl p)))"

section \<open>Search by key\<close>

fun get_tree_node_by_key_aux ::
  "('k::linorder, 'i) tree \<Rightarrow> 'k \<Rightarrow> (('k, 'i) tree, unit) outcome" where
  "get_tree_node_by_key_aux NoneT k = Raise Key_not_found (Some ())"
| "get_tree_node_by_key_aux (AVLTreeNode ck cv l r h s) k =
     (if k = ck then Return (AVLTreeNode ck cv l r h s)
      else if k < ck then get_tree_node_by_key_aux l k
      else get_tree_node_by_key_aux r k)"

text \<open>\<^verbatim>\<open>__getitem__\<close>: the item of the node found.\<close>

definition getitem :: "('k::linorder, 'i) avl \<Rightarrow> 'k \<Rightarrow> ('i, unit) outcome" where
  "getitem t k =
     (case get_tree_node_by_key_aux (root t) k of
        Return node \<Rightarrow> Return (item node)
      | Raise e s \<Rightarrow> Raise e s)"

section \<open>Rank lookup and range extraction\<close>

text \<open>
  \<^verbatim>\<open>lookup\<close> calls \<^verbatim>\<open>self.size(node.left)\<close> in each of its tests, and every such call writes
  the \<^verbatim>\<open>size\<close> field of the left child: the result is the node found together with the
  subtree of \<^verbatim>\<open>node\<close> after these writes. A \<^verbatim>\<open>node\<close> that is \<^verbatim>\<open>None\<close> has no field
  \<^verbatim>\<open>left\<close>.
\<close>

lemma size_snd_size_node: "size (snd (size_node t)) = size t"
  by (cases t) (simp_all add: Let_def)

function lookup ::
  "('k, 'i) tree \<Rightarrow> int \<Rightarrow> (('k, 'i) tree \<times> ('k, 'i) tree, ('k, 'i) tree) outcome" where
  "lookup NoneT index = Raise Attribute_error (Some NoneT)"
| "lookup (AVLTreeNode k v l r h s) index =
     (let node = AVLTreeNode k v l r h s;
          s1 = fst (size_node (left node));
          node = set_left node (snd (size_node (left node)))
      in if index = s1 then Return (node, node)
         else
           let s2 = fst (size_node (left node));
               node = set_left node (snd (size_node (left node)))
           in if index < s2 then
                (case lookup (left node) index of
                   Return (found, l') \<Rightarrow> Return (found, set_left node l')
                 | Raise e res \<Rightarrow> Raise e (map_option (set_left node) res))
              else
                let s3 = fst (size_node (left node));
                    node = set_left node (snd (size_node (left node)))
                in (case lookup (right node) (index - s3 - 1) of
                      Return (found, r') \<Rightarrow> Return (found, set_right node r')
                    | Raise e res \<Rightarrow> Raise e (map_option (set_right node) res)))"
  by pat_completeness auto
termination
  by (relation "measure (\<lambda>(t, i). size t)") (auto simp: Let_def size_snd_size_node)

text \<open>
  \<^verbatim>\<open>range_aux\<close> is always called with \<^verbatim>\<open>current = self.root\<close>; the list \<^verbatim>\<open>res\<close> grows by
  \<^verbatim>\<open>append\<close>. The state of the tree object is passed along, since \<^verbatim>\<open>lookup\<close> writes
  \<^verbatim>\<open>size\<close> fields.
\<close>

function range_aux ::
  "('k, 'i) avl \<Rightarrow> ('k, 'i) tree \<Rightarrow> int \<Rightarrow> int \<Rightarrow> 'i list
     \<Rightarrow> ('i list \<times> ('k, 'i) avl, ('k, 'i) avl) outcome" where
  "range_aux t current i j res =
     (if current = NoneT \<or> i > j then Return (res, t)
      else
        (case lookup (root t) i of
           Raise e s \<Rightarrow> Raise e (map_option (\<lambda>r. t\<lparr>root := r\<rparr>) s)
         | Return (node, r) \<Rightarrow>
             (let t = t\<lparr>root := r\<rparr>
              in range_aux t (root t) (i + 1) j (res @ [item node]))))"
  by pat_completeness auto
termination
  by (relation "measure (\<lambda>(t, c, i, j, res). nat (j + 1 - i))") auto

text \<open>
  \<^verbatim>\<open>range_between\<close>: the assertion compares \<^verbatim>\<open>i\<close> and \<^verbatim>\<open>j\<close> with \<^verbatim>\<open>N + 1\<close>; an
  \<^verbatim>\<open>AssertionError\<close> becomes a \<^verbatim>\<open>ValueError\<close>. The result of \<^verbatim>\<open>range_aux\<close> is always a
  list, so the check of the postcondition never raises.
\<close>

definition range_between ::
  "('k, 'i) avl \<Rightarrow> int \<Rightarrow> int \<Rightarrow> ('i list \<times> ('k, 'i) avl, ('k, 'i) avl) outcome" where
  "range_between t i j =
     (let N = fst (size_node (root t));
          t = t\<lparr>root := snd (size_node (root t))\<rparr>
      in if \<not> ((i \<ge> 0 \<and> i \<le> N + 1) \<and> (j \<ge> 0 \<and> j \<le> N + 1) \<and> j \<ge> i)
         then Raise Range_precondition (Some t)
         else range_aux t (root t) i j [])"

section \<open>The in-order iterator\<close>

text \<open>
  Modelled from the spec: \<^verbatim>\<open>linked_stack.py\<close> is not among the sources; the stack is
  last-in-first-out, here a list whose head is the top.

  The state of \<^verbatim>\<open>BSTInOrderIterator\<close> is the stack and the node \<^verbatim>\<open>current\<close>.
\<close>

record ('k, 'i) iterator =
  stack :: "('k, 'i) tree list"
  current :: "('k, 'i) tree"

definition iter :: "('k, 'i) avl \<Rightarrow> ('k, 'i) iterator" where
  "iter t = \<lparr>stack = [], current = root t\<rparr>"

text \<open>
  The loop \<^verbatim>\<open>while self.current: push(current); current = current.left\<close>: the stack when
  the loop ends; \<^verbatim>\<open>current\<close> is \<^verbatim>\<open>None\<close> then.
\<close>

fun push_left :: "('k, 'i) tree \<Rightarrow> ('k, 'i) tree list \<Rightarrow> ('k, 'i) tree list" where
  "push_left NoneT st = st"
| "push_left (AVLTreeNode k v l r h s) st = push_left l (AVLTreeNode k v l r h s # st)"

text \<open>\<^verbatim>\<open>__next__\<close>: \<open>None\<close> is \<^verbatim>\<open>StopIteration\<close>.\<close>

definition next_key :: "('k, 'i) iterator \<Rightarrow> ('k \<times> ('k, 'i) iterator) option" where
  "next_key it =
     (case push_left (current it) (stack it) of
        [] \<Rightarrow> None
      | result # st \<Rightarrow> Some (key result, \<lparr>stack = st, current = right result\<rparr>))"

section \<open>Abstraction: contents, true height, true size\<close>

text \<open>The key-item pairs of a tree from left to right.\<close>

fun inorder :: "('k, 'i) tree \<Rightarrow> ('k \<times> 'i) list" where
  "inorder NoneT = []"
| "inorder (AVLTreeNode k v l r h s) = inorder l @ (k, v) # inorder r"

definition keys :: "('k, 'i) tree \<Rightarrow> 'k list" where
  "keys t = map fst (inorder t)"

text \<open>The height of a tree as its shape gives it, whatever the cached fields say.\<close>

fun true_height :: "('k, 'i) tree \<Rightarrow> int" where
  "true_height NoneT = 0"
| "true_height (AVLTreeNode k v l r h s) = 1 + max (true_height l) (true_height r)"

text \<open>The AVL balance condition on true heights, at every node.\<close>

fun balanced :: "('k, 'i) tree \<Rightarrow> bool" where
  "balanced NoneT = True"
| "balanced (AVLTreeNode k v l r h s) =
     (\<bar>true_height l - true_height r\<bar> \<le> 1 \<and> balanced l \<and> balanced r)"

text \<open>Every cached height is one more than the larger cached height of the children.\<close>

fun height_consistent :: "('k, 'i) tree \<Rightarrow> bool" where
  "height_consistent NoneT = True"
| "height_consistent (AVLTreeNode k v l r h s) =
     (h = 1 + max (get_height l) (get_height r) \<and> height_consistent l \<and> height_consistent r)"

text \<open>The number of nodes, and: every cached size is the number of nodes below.\<close>

fun count :: "('k, 'i) tree \<Rightarrow> int" where
  "count NoneT = 0"
| "count (AVLTreeNode k v l r h s) = count l + count r + 1"

fun size_consistent :: "('k, 'i) tree \<Rightarrow> bool" where
  "size_consistent NoneT = True"
| "size_consistent (AVLTreeNode k v l r h s) =
     (s = count l + count r + 1 \<and> size_consistent l \<and> size_consistent r)"

text \<open>A sequence of insertions, each of which has to return.\<close>

fun insert_all ::
  "('k::linorder, 'i) avl \<Rightarrow> ('k \<times> 'i) list \<Rightarrow> ('k, 'i) avl option" where
  "insert_all t [] = Some t"
| "insert_all t ((k, v) # kvs) =
     (case setitem t k v of
        Some (Return t') \<Rightarrow> insert_all t' kvs
      | _ \<Rightarrow> None)"

text \<open>A sequence of deletions, each of which has to return.\<close>

fun delete_all :: "('k::linorder, 'i) avl \<Rightarrow> 'k list \<Rightarrow> ('k, 'i) avl option" where
  "delete_all t [] = Some t"
| "delete_all t (k # ks) =
     (case delitem t k of
        Some (Return t') \<Rightarrow> delete_all t' ks
      | _ \<Rightarrow> None)"

text \<open>The nodes of a tree, as the subtrees they are the roots of (and \<^verbatim>\<open>None\<close>).\<close>

fun subtrees :: "('k, 'i) tree \<Rightarrow> ('k, 'i) tree set" where
  "subtrees NoneT = {NoneT}"
| "subtrees (AVLTreeNode k v l r h s) = insert (AVLTreeNode k v l r h s) (subtrees l \<union> subtrees r)"

section \<open>Specification of the contents\<close>

text \<open>
  Insertion of a pair into, and deletion of a key from, a list of pairs with ascending
  keys: what \<^verbatim>\<open>insert_aux\<close> and \<^verbatim>\<open>delete_aux\<close> do to the in-order sequence of a tree.
\<close>

fun ins_list :: "'k::linorder \<Rightarrow> 'i \<Rightarrow> ('k \<times> 'i) list \<Rightarrow> ('k \<times> 'i) list" where
  "ins_list k v [] = [(k, v)]"
| "ins_list k v ((a, b) # xs) = (if k < a then (k, v) # (a, b) # xs else (a, b) # ins_list k v xs)"

fun del_list :: "'k \<Rightarrow> ('k \<times> 'i) list \<Rightarrow> ('k \<times> 'i) list" where
  "del_list k [] = []"
| "del_list k ((a, b) # xs) = (if k = a then xs else (a, b) # del_list k xs)"

definition sorted_keys :: "('k::linorder, 'i) tree \<Rightarrow> bool" where
  "sorted_keys t = sorted_wrt (<) (keys t)"

text \<open>The value that \<^verbatim>\<open>size\<close> writes into a node with children \<open>l\<close> and \<open>r\<close>.\<close>

definition children_size :: "('k, 'i) tree \<Rightarrow> ('k, 'i) tree \<Rightarrow> int" where
  "children_size l r =
     (if l = NoneT \<and> r = NoneT then 1
      else if l = NoneT then size_field r + 1
      else if r = NoneT then size_field l + 1
      else size_field l + size_field r + 1)"

fun children_consistent :: "('k, 'i) tree \<Rightarrow> bool" where
  "children_consistent NoneT = True"
| "children_consistent (AVLTreeNode k v l r h s) = (size_consistent l \<and> size_consistent r)"

text \<open>The tree a call works on, and what the call needs for the sizes of its result to be right.\<close>

fun call_tree :: "('k, 'i) call \<Rightarrow> ('k, 'i) tree" where
  "call_tree (Rebalance t) = t"
| "call_tree (Left_rotate t) = t"
| "call_tree (Right_rotate t) = t"

fun size_pre :: "('k, 'i) call \<Rightarrow> bool" where
  "size_pre (Rebalance t) = children_consistent t"
| "size_pre (Left_rotate NoneT) = True"
| "size_pre (Left_rotate (AVLTreeNode k v l r h s)) = (size_consistent l \<and> children_consistent r)"
| "size_pre (Right_rotate NoneT) = True"
| "size_pre (Right_rotate (AVLTreeNode k v l r h s)) = (children_consistent l \<and> size_consistent r)"

text \<open>The keys that an iterator with stack \<open>st\<close> still has to produce after \<^verbatim>\<open>current\<close> is used up.\<close>

fun pending :: "('k, 'i) tree list \<Rightarrow> 'k list" where
  "pending [] = []"
| "pending (nd # st) = key nd # keys (right nd) @ pending st"

lemma pending_push_left: "pending (push_left c st) = keys c @ pending st"
  by (induction c arbitrary: st) (auto simp: keys_def)

text \<open>
  The sequence an iterator produces: \<^verbatim>\<open>__next__\<close> is called until it raises
  \<^verbatim>\<open>StopIteration\<close>.
\<close>

function iterate :: "('k, 'i) iterator \<Rightarrow> 'k list" where
  "iterate it = (case next_key it of None \<Rightarrow> [] | Some (k, it') \<Rightarrow> k # iterate it')"
  by pat_completeness auto
termination
proof (relation "measure (\<lambda>it. length (pending (stack it)) + length (keys (current it)))")
  fix it :: "('k, 'i) iterator" and x k it'
  assume "next_key it = Some x" and "(k, it') = x"
  then obtain result st where ps: "push_left (current it) (stack it) = result # st"
    and it': "it' = \<lparr>stack = st, current = right result\<rparr>"
    by (auto simp: next_key_def split: list.splits)
  from pending_push_left[of "current it" "stack it"] ps
  have "keys (current it) @ pending (stack it) = key result # keys (right result) @ pending st"
    by simp
  then have "length (keys (current it) @ pending (stack it)) =
      length (key result # keys (right result) @ pending st)" by simp
  with it' show "(it', it) \<in> measure (\<lambda>it. length (pending (stack it)) + length (keys (current it)))"
    by simp
qed simp

declare iterate.simps [simp del]

section \<open>Cached heights that bound the true shape\<close>

text \<open>
  What the calls of \<^verbatim>\<open>rebalance\<close> keep of the cached heights although \<^verbatim>\<open>right_rotate\<close>
  leaves them too large: every cached height is at least one more than the cached heights
  of the two children. \<open>height_sum\<close> adds up the cached heights of a tree, \<open>below_sum\<close>
  those below the root: the quantity that the rotations of one call of \<^verbatim>\<open>rebalance\<close>
  never increase. \<open>top\<close> is the larger cached height of the two children.
\<close>

fun height_dominant :: "('k, 'i) tree \<Rightarrow> bool" where
  "height_dominant NoneT = True"
| "height_dominant (AVLTreeNode k v l r h s) =
     (h \<ge> 1 + max (get_height l) (get_height r) \<and> height_dominant l \<and> height_dominant r)"

fun height_sum :: "('k, 'i) tree \<Rightarrow> int" where
  "height_sum NoneT = 0"
| "height_sum (AVLTreeNode k v l r h s) = h + height_sum l + height_sum r"

definition below_sum :: "('k, 'i) tree \<Rightarrow> int" where
  "below_sum t = height_sum (left t) + height_sum (right t)"

definition top :: "('k, 'i) tree \<Rightarrow> int" where
  "top t = max (get_height (left t)) (get_height (right t))"

text \<open>
  A rotation at the root that leaves \<open>below_sum\<close> as it was ends in a tree of a known
  shape, \<open>tie_right\<close> for a root that was heavy on the right and \<open>tie_left\<close> for the
  left; \<open>rebalanced t d\<close> is what is known of the result \<open>d\<close> of \<^verbatim>\<open>rebalance\<close> on \<open>t\<close>.
\<close>

definition tie_right :: "('k, 'i) tree \<Rightarrow> ('k, 'i) tree \<Rightarrow> bool" where
  "tie_right t d =
     (get_balance t \<ge> 2 \<and> below_sum d = below_sum t \<longrightarrow>
        left d \<noteq> NoneT \<and> get_height (left d) = get_height (right t)
        \<and> get_height (right d) = get_height (left d) - 1
        \<and> get_height (right (left d)) = get_height (left d) - 1
        \<and> get_height (left (left d)) \<le> get_height (left d) - 2)"

definition tie_left :: "('k, 'i) tree \<Rightarrow> ('k, 'i) tree \<Rightarrow> bool" where
  "tie_left t d =
     (get_balance t \<le> - 2 \<and> below_sum d = below_sum t \<longrightarrow>
        right d \<noteq> NoneT \<and> get_height (right d) = get_height (left t)
        \<and> get_height (left d) = get_height (right d) - 1
        \<and> get_height (left (right d)) = get_height (right d) - 1
        \<and> get_height (right (right d)) \<le> get_height (right d) - 2)"

definition rebalanced :: "('k, 'i) tree \<Rightarrow> ('k, 'i) tree \<Rightarrow> bool" where
  "rebalanced t d =
     (d \<noteq> NoneT \<and> height_dominant d \<and> below_sum d \<le> below_sum t \<and> top d \<le> top t
      \<and> \<bar>get_balance d\<bar> \<le> 1 \<and> tie_right t d \<and> tie_left t d)"

section \<open>Reachable states\<close>

text \<open>
  The states of a tree object that starts empty and on which the public operations are
  called, each call returning: insertion, deletion, rank lookup at the root, and range
  extraction. The two queries are here since they write \<^verbatim>\<open>size\<close> fields.
\<close>

inductive reachable :: "('k::linorder, 'i) avl \<Rightarrow> bool" where
  reach_init: "reachable init"
| reach_setitem: "reachable t \<Longrightarrow> setitem t k v = Some (Return t') \<Longrightarrow> reachable t'"
| reach_delitem: "reachable t \<Longrightarrow> delitem t k = Some (Return t') \<Longrightarrow> reachable t'"
| reach_lookup: "reachable t \<Longrightarrow> lookup (root t) i = Return (nd, r) \<Longrightarrow> reachable (t\<lparr>root := r\<rparr>)"
| reach_range: "reachable t \<Longrightarrow> range_between t i j = Return (res, t') \<Longrightarrow> reachable t'"

text \<open>
  What holds in every reachable state: ascending keys, right sizes, right count, and
  cached heights that are never too small.
\<close>

definition invariant :: "('k::linorder, 'i) avl \<Rightarrow> bool" where
  "invariant t =
     (sorted_keys (root t) \<and> size_consistent (root t) \<and> length_field t = count (root t)
      \<and> height_dominant (root t))"

section \<open>Unfolding and induction for the rebalancing calls\<close>

lemma rebalance_unfold:
  "rebalance cur =
     (if cur = NoneT then Some (Raise Attribute_error (Some NoneT))
      else
        let cur = update_size cur in
        if get_balance cur \<ge> 2 then
          (let child = right cur in
           if child = NoneT then Some (Raise Attribute_error (Some cur))
           else if get_height (left child) > get_height (right child) then
             (case right_rotate child of
                None \<Rightarrow> None
              | Some (Raise e s) \<Rightarrow> Some (Raise e None)
              | Some (Return child') \<Rightarrow> left_rotate (set_right cur child'))
           else left_rotate cur)
        else if get_balance cur \<le> - 2 then
          (let child = left cur in
           if child = NoneT then Some (Raise Attribute_error (Some cur))
           else if get_height (right child) > get_height (left child) then
             (case left_rotate child of
                None \<Rightarrow> None
              | Some (Raise e s) \<Rightarrow> Some (Raise e None)
              | Some (Return child') \<Rightarrow> right_rotate (set_left cur child'))
           else right_rotate cur)
        else Some (Return cur))"
  unfolding rebalance_def left_rotate_def right_rotate_def
  by (subst run.simps) (simp add: Let_def split: option.splits outcome.splits bind_splits)

lemma left_rotate_unfold:
  "left_rotate cur =
     (if cur = NoneT \<or> right cur = NoneT then Some (Raise Rotate_none (Some cur))
      else
        (case rebalance (left_rotate_writes cur) of
           None \<Rightarrow> None
         | Some (Return t) \<Rightarrow> Some (Return t)
         | Some (Raise e s) \<Rightarrow> Some (Raise e None)))"
  unfolding rebalance_def left_rotate_def
  by (subst run.simps) (simp add: Let_def split: option.splits outcome.splits bind_splits)

lemma right_rotate_unfold:
  "right_rotate cur =
     (if cur = NoneT \<or> left cur = NoneT then Some (Raise Rotate_none (Some cur))
      else
        (case rebalance (right_rotate_writes cur) of
           None \<Rightarrow> None
         | Some (Return t) \<Rightarrow> Some (Return t)
         | Some (Raise e s) \<Rightarrow> Some (Raise e None)))"
  unfolding rebalance_def right_rotate_def
  by (subst run.simps) (simp add: Let_def split: option.splits outcome.splits bind_splits)

lemma run_returns_induct [consumes 1, case_names stop left right_left right left_right rot_left rot_right]:
  assumes ret: "run c = Some (Return t')"
    and stop: "\<And>cur. cur \<noteq> NoneT \<Longrightarrow> \<not> 2 \<le> get_balance (update_size cur)
        \<Longrightarrow> \<not> get_balance (update_size cur) \<le> - 2 \<Longrightarrow> P (Rebalance cur) (update_size cur)"
    and left: "\<And>cur t. cur \<noteq> NoneT \<Longrightarrow> 2 \<le> get_balance (update_size cur)
        \<Longrightarrow> right (update_size cur) \<noteq> NoneT
        \<Longrightarrow> \<not> get_height (right (right (update_size cur))) < get_height (left (right (update_size cur)))
        \<Longrightarrow> P (Left_rotate (update_size cur)) t \<Longrightarrow> P (Rebalance cur) t"
    and right_left: "\<And>cur child' t. cur \<noteq> NoneT \<Longrightarrow> 2 \<le> get_balance (update_size cur)
        \<Longrightarrow> right (update_size cur) \<noteq> NoneT
        \<Longrightarrow> get_height (right (right (update_size cur))) < get_height (left (right (update_size cur)))
        \<Longrightarrow> P (Right_rotate (right (update_size cur))) child'
        \<Longrightarrow> P (Left_rotate (set_right (update_size cur) child')) t \<Longrightarrow> P (Rebalance cur) t"
    and right: "\<And>cur t. cur \<noteq> NoneT
        \<Longrightarrow> get_balance (update_size cur) \<le> - 2
        \<Longrightarrow> left (update_size cur) \<noteq> NoneT
        \<Longrightarrow> \<not> get_height (left (left (update_size cur))) < get_height (right (left (update_size cur)))
        \<Longrightarrow> P (Right_rotate (update_size cur)) t \<Longrightarrow> P (Rebalance cur) t"
    and left_right: "\<And>cur child' t. cur \<noteq> NoneT
        \<Longrightarrow> get_balance (update_size cur) \<le> - 2
        \<Longrightarrow> left (update_size cur) \<noteq> NoneT
        \<Longrightarrow> get_height (left (left (update_size cur))) < get_height (right (left (update_size cur)))
        \<Longrightarrow> P (Left_rotate (left (update_size cur))) child'
        \<Longrightarrow> P (Right_rotate (set_left (update_size cur) child')) t \<Longrightarrow> P (Rebalance cur) t"
    and rot_left: "\<And>cur t. cur \<noteq> NoneT \<Longrightarrow> right cur \<noteq> NoneT
        \<Longrightarrow> P (Rebalance (left_rotate_writes cur)) t \<Longrightarrow> P (Left_rotate cur) t"
    and rot_right: "\<And>cur t. cur \<noteq> NoneT \<Longrightarrow> left cur \<noteq> NoneT
        \<Longrightarrow> P (Rebalance (right_rotate_writes cur)) t \<Longrightarrow> P (Right_rotate cur) t"
  shows "P c t'"
proof -
  have "\<forall>t. y = Return t \<longrightarrow> P c t" if r: "run c = Some y" for y
  proof (rule run.raw_induct[where P = "\<lambda>c y. \<forall>t. y = Return t \<longrightarrow> P c t", OF _ r], goal_cases)
    case (1 f c y)
    show ?case
    proof (cases c)
      case (Rebalance cur)
      with 1 show ?thesis
        by (auto simp: Let_def split: if_splits bind_splits outcome.splits
            intro: stop left right_left right left_right)
    next
      case (Left_rotate cur)
      with 1 show ?thesis
        by (auto simp: Let_def split: if_splits bind_splits outcome.splits intro: rot_left)
    next
      case (Right_rotate cur)
      with 1 show ?thesis
        by (auto simp: Let_def split: if_splits bind_splits outcome.splits intro: rot_right)
    qed
  qed
  with ret show ?thesis by blast
qed


subsection \<open>Field writes on a node\<close>

lemma size_node_Node:
  "size_node (AVLTreeNode k v l r h s) = (children_size l r, AVLTreeNode k v l r h (children_size l r))"
  by (simp add: children_size_def Let_def)

lemma update_size_Node [simp]:
  "update_size (AVLTreeNode k v l r h s) = AVLTreeNode k v l r h (children_size l r)"
  by (simp add: update_size_def children_size_def Let_def)

lemma update_size_None [simp]: "update_size NoneT = NoneT"
  by (simp add: update_size_def)

lemma update_height_Node [simp]:
  "update_height (AVLTreeNode k v l r h s) =
     AVLTreeNode k v l r (max (get_height l) (get_height r) + 1) s"
  by (simp add: update_height_def)

lemma update_height_None [simp]: "update_height NoneT = NoneT"
  by (simp add: update_height_def)

lemma left_rotate_writes_Node:
  "left_rotate_writes (AVLTreeNode k v l (AVLTreeNode ck cv cl cr ch cs) h s) =
     AVLTreeNode ck cv
       (AVLTreeNode k v l cl (max (get_height l) (get_height cl) + 1) (children_size l cl))
       cr
       (max (max (get_height l) (get_height cl) + 1) (get_height cr) + 1)
       (children_size (AVLTreeNode k v l cl (max (get_height l) (get_height cl) + 1) s) cr)"
  by (simp add: left_rotate_writes_def)

lemma right_rotate_writes_Node:
  "right_rotate_writes (AVLTreeNode k v (AVLTreeNode ck cv cl cr ch cs) r h s) =
     AVLTreeNode ck cv
       cl
       (AVLTreeNode k v cr r (max (get_height cr) (get_height r) + 1) (children_size cr r))
       (max (get_height cl) h + 1)
       (children_size cl (AVLTreeNode k v cr r (max (get_height cr) (get_height r) + 1) s))"
  by (simp add: right_rotate_writes_def)

lemma inorder_update_size [simp]: "inorder (update_size t) = inorder t"
  by (cases t) simp_all

lemma inorder_update_height [simp]: "inorder (update_height t) = inorder t"
  by (cases t) simp_all

lemma run_inorder:
  "run c = Some (Return t') \<Longrightarrow> inorder t' = inorder (call_tree c)"
proof (induction rule: run_returns_induct)
  case (right_left cur child' t)
  then show ?case by (cases cur) auto
next
  case (left_right cur child' t)
  then show ?case by (cases cur) auto
next
  case (rot_left cur t)
  then show ?case
    by (cases cur; cases "right cur") (auto simp: left_rotate_writes_Node)
next
  case (rot_right cur t)
  then show ?case
    by (cases cur; cases "left cur") (auto simp: right_rotate_writes_Node)
qed auto

lemma rebalance_inorder: "rebalance t = Some (Return t') \<Longrightarrow> inorder t' = inorder t"
  unfolding rebalance_def by (drule run_inorder) simp

lemma count_inorder: "count t = int (length (inorder t))"
  by (induction t) auto

lemma children_size_consistent:
  "size_consistent l \<Longrightarrow> size_consistent r \<Longrightarrow> children_size l r = count l + count r + 1"
  by (cases l; cases r) (auto simp: children_size_def)

lemma size_consistent_children: "size_consistent t \<Longrightarrow> children_consistent t"
  by (cases t) auto

lemma run_size_consistent:
  "run c = Some (Return t') \<Longrightarrow> size_pre c \<Longrightarrow> size_consistent t'"
proof (induction rule: run_returns_induct)
  case (stop cur)
  then show ?case by (cases cur) (auto simp: children_size_consistent)
next
  case (left cur t)
  then show ?case by (cases cur; cases "right cur") auto
next
  case (right_left cur child' t)
  then show ?case
    by (cases cur; cases "right cur"; cases child') (auto simp: size_consistent_children)
next
  case (right cur t)
  then show ?case by (cases cur; cases "left cur") auto
next
  case (left_right cur child' t)
  then show ?case
    by (cases cur; cases "left cur"; cases child') (auto simp: size_consistent_children)
next
  case (rot_left cur t)
  then show ?case
    by (cases cur; cases "right cur") (auto simp: left_rotate_writes_Node children_size_consistent)
next
  case (rot_right cur t)
  then show ?case
    by (cases cur; cases "left cur") (auto simp: right_rotate_writes_Node children_size_consistent)
qed

lemma rebalance_size_consistent:
  "rebalance t = Some (Return t') \<Longrightarrow> children_consistent t \<Longrightarrow> size_consistent t'"
  unfolding rebalance_def by (drule run_size_consistent) simp_all


subsection \<open>Every call of rebalance returns\<close>

lemma height_nonneg: "height_dominant t \<Longrightarrow> 0 \<le> get_height t"
  by (induction t) auto

lemma height_pos: "height_dominant t \<Longrightarrow> t \<noteq> NoneT \<Longrightarrow> 1 \<le> get_height t"
  using height_nonneg by (cases t) fastforce+

lemma height_zero_None: "height_dominant t \<Longrightarrow> get_height t \<le> 0 \<Longrightarrow> t = NoneT"
  using height_pos[of t] by (cases "t = NoneT") auto

lemma height_sum_nonneg: "height_dominant t \<Longrightarrow> 0 \<le> height_sum t"
  by (induction t) (use height_nonneg in fastforce)+

lemma height_sum_ge: "height_dominant t \<Longrightarrow> get_height t \<le> height_sum t"
  using height_sum_nonneg by (cases t) fastforce+

text \<open>A node seen through its selectors.\<close>

lemma dominant_node:
  "t \<noteq> NoneT \<Longrightarrow> height_dominant t \<longleftrightarrow>
     get_height t \<ge> 1 + max (get_height (left t)) (get_height (right t))
     \<and> height_dominant (left t) \<and> height_dominant (right t)"
  by (cases t) auto

lemma height_sum_node:
  "t \<noteq> NoneT \<Longrightarrow> height_sum t = get_height t + height_sum (left t) + height_sum (right t)"
  by (cases t) auto

lemma balance_node: "t \<noteq> NoneT \<Longrightarrow> get_balance t = get_height (right t) - get_height (left t)"
  by (cases t) auto

lemma update_size_sel [simp]:
  "left (update_size t) = left t" "right (update_size t) = right t"
  "get_height (update_size t) = get_height t" "get_balance (update_size t) = get_balance t"
  "update_size t = NoneT \<longleftrightarrow> t = NoneT"
  "height_dominant (update_size t) = height_dominant t"
  "height_sum (update_size t) = height_sum t"
  by (cases t; simp)+

lemma below_sum_update_size [simp]: "below_sum (update_size t) = below_sum t"
  by (simp add: below_sum_def)

lemma top_update_size [simp]: "top (update_size t) = top t"
  by (simp add: top_def)

lemma set_right_sel [simp]:
  "t \<noteq> NoneT \<Longrightarrow> right (set_right t x) = x"
  "left (set_right t x) = left t"
  "get_height (set_right t x) = get_height t"
  "set_right t x = NoneT \<longleftrightarrow> t = NoneT"
  by (cases t; simp)+

lemma set_left_sel [simp]:
  "t \<noteq> NoneT \<Longrightarrow> left (set_left t x) = x"
  "right (set_left t x) = right t"
  "get_height (set_left t x) = get_height t"
  "set_left t x = NoneT \<longleftrightarrow> t = NoneT"
  by (cases t; simp)+

text \<open>The tree after the writes of a left rotation, through its selectors.\<close>

lemma left_rotate_writes_sel:
  assumes "t \<noteq> NoneT" and "right t \<noteq> NoneT"
  shows "left_rotate_writes t \<noteq> NoneT"
    and "left (left_rotate_writes t) \<noteq> NoneT"
    and "left (left (left_rotate_writes t)) = left t"
    and "right (left (left_rotate_writes t)) = left (right t)"
    and "right (left_rotate_writes t) = right (right t)"
    and "get_height (left (left_rotate_writes t)) =
           max (get_height (left t)) (get_height (left (right t))) + 1"
    and "get_height (left_rotate_writes t) =
           max (max (get_height (left t)) (get_height (left (right t))) + 1)
             (get_height (right (right t))) + 1"
  using assms by (cases t; cases "right t"; simp add: left_rotate_writes_Node)+

lemma right_rotate_writes_sel:
  assumes "t \<noteq> NoneT" and "left t \<noteq> NoneT"
  shows "right_rotate_writes t \<noteq> NoneT"
    and "right (right_rotate_writes t) \<noteq> NoneT"
    and "right (right (right_rotate_writes t)) = right t"
    and "left (right (right_rotate_writes t)) = right (left t)"
    and "left (right_rotate_writes t) = left (left t)"
    and "get_height (right (right_rotate_writes t)) =
           max (get_height (right (left t))) (get_height (right t)) + 1"
    and "get_height (right_rotate_writes t) = max (get_height (left (left t))) (get_height t) + 1"
  using assms by (cases t; cases "left t"; simp add: right_rotate_writes_Node)+


lemma dominant_left_rotate_writes:
  assumes "t \<noteq> NoneT" and "right t \<noteq> NoneT"
    and "height_dominant (left t)" and "height_dominant (left (right t))"
    and "height_dominant (right (right t))"
  shows "height_dominant (left_rotate_writes t)"
  using assms by (cases t; cases "right t") (auto simp: left_rotate_writes_Node)

lemma dominant_right_rotate_writes:
  assumes "t \<noteq> NoneT" and "left t \<noteq> NoneT"
    and "height_dominant (left (left t))" and "height_dominant (right (left t))"
    and "height_dominant (right t)"
    and "max (get_height (right (left t))) (get_height (right t)) + 1 \<le> get_height t"
  shows "height_dominant (right_rotate_writes t)"
  using assms by (cases t; cases "left t") (auto simp: right_rotate_writes_Node)

lemma below_sum_left_rotate_writes:
  assumes "t \<noteq> NoneT" and "right t \<noteq> NoneT"
  shows "below_sum (left_rotate_writes t) =
           (max (get_height (left t)) (get_height (left (right t))) + 1)
           + height_sum (left t) + height_sum (left (right t)) + height_sum (right (right t))"
  using assms by (cases t; cases "right t") (auto simp: left_rotate_writes_Node below_sum_def)

lemma below_sum_right_rotate_writes:
  assumes "t \<noteq> NoneT" and "left t \<noteq> NoneT"
  shows "below_sum (right_rotate_writes t) =
           (max (get_height (right (left t))) (get_height (right t)) + 1)
           + height_sum (left (left t)) + height_sum (right (left t)) + height_sum (right t)"
  using assms by (cases t; cases "left t") (auto simp: right_rotate_writes_Node below_sum_def)

text \<open>How the result of a call of \<^verbatim>\<open>rebalance\<close> is put together from the calls it makes.\<close>

lemma rebalance_stop:
  "t \<noteq> NoneT \<Longrightarrow> \<not> 2 \<le> get_balance t \<Longrightarrow> \<not> get_balance t \<le> - 2
     \<Longrightarrow> rebalance t = Some (Return (update_size t))"
  by (subst rebalance_unfold) (simp add: Let_def)

lemma rebalance_left:
  "t \<noteq> NoneT \<Longrightarrow> 2 \<le> get_balance t \<Longrightarrow> right t \<noteq> NoneT
     \<Longrightarrow> \<not> get_height (left (right t)) > get_height (right (right t))
     \<Longrightarrow> rebalance (left_rotate_writes (update_size t)) = Some (Return f)
     \<Longrightarrow> rebalance t = Some (Return f)"
  by (subst rebalance_unfold) (simp add: Let_def left_rotate_unfold)

lemma rebalance_right_left:
  "t \<noteq> NoneT \<Longrightarrow> 2 \<le> get_balance t \<Longrightarrow> right t \<noteq> NoneT
     \<Longrightarrow> get_height (left (right t)) > get_height (right (right t))
     \<Longrightarrow> left (right t) \<noteq> NoneT
     \<Longrightarrow> rebalance (right_rotate_writes (right t)) = Some (Return d) \<Longrightarrow> d \<noteq> NoneT
     \<Longrightarrow> rebalance (left_rotate_writes (set_right (update_size t) d)) = Some (Return f)
     \<Longrightarrow> rebalance t = Some (Return f)"
  by (subst rebalance_unfold) (simp add: Let_def left_rotate_unfold right_rotate_unfold)

lemma rebalance_right:
  "t \<noteq> NoneT \<Longrightarrow> get_balance t \<le> - 2 \<Longrightarrow> left t \<noteq> NoneT
     \<Longrightarrow> \<not> get_height (right (left t)) > get_height (left (left t))
     \<Longrightarrow> rebalance (right_rotate_writes (update_size t)) = Some (Return f)
     \<Longrightarrow> rebalance t = Some (Return f)"
  by (subst rebalance_unfold) (simp add: Let_def right_rotate_unfold)

lemma rebalance_left_right:
  "t \<noteq> NoneT \<Longrightarrow> get_balance t \<le> - 2 \<Longrightarrow> left t \<noteq> NoneT
     \<Longrightarrow> get_height (right (left t)) > get_height (left (left t))
     \<Longrightarrow> right (left t) \<noteq> NoneT
     \<Longrightarrow> rebalance (left_rotate_writes (left t)) = Some (Return d) \<Longrightarrow> d \<noteq> NoneT
     \<Longrightarrow> rebalance (right_rotate_writes (set_left (update_size t) d)) = Some (Return f)
     \<Longrightarrow> rebalance t = Some (Return f)"
  by (subst rebalance_unfold) (simp add: Let_def left_rotate_unfold right_rotate_unfold)


lemma rebalanced_after_step:
  assumes "rebalanced tn f" and "below_sum tn < below_sum t" and "top tn \<le> top t"
  shows "rebalanced t f"
  using assms by (auto simp: rebalanced_def tie_right_def tie_left_def)

lemma rebalance_right_heavy:
  fixes t :: "('k, 'i) tree"
  assumes IH: "\<And>t' :: ('k, 'i) tree. below_sum t' < below_sum t \<Longrightarrow> height_dominant t' \<Longrightarrow> t' \<noteq> NoneT
        \<Longrightarrow> \<exists>d. rebalance t' = Some (Return d) \<and> rebalanced t' d"
    and dom: "height_dominant t" and tn0: "t \<noteq> NoneT" and heavy: "2 \<le> get_balance t"
  shows "\<exists>d. rebalance t = Some (Return d) \<and> rebalanced t d"
proof -
  define a b where "a = get_height (left t)" and "b = get_height (right t)"
  from dom tn0 have dl: "height_dominant (left t)" and dr: "height_dominant (right t)"
    by (simp_all add: dominant_node)
  from heavy tn0 have ab: "a + 2 \<le> b" by (simp add: balance_node a_def b_def)
  from height_nonneg[OF dl] have a0: "0 \<le> a" by (simp add: a_def)
  from ab a0 height_zero_None[OF dr] have rn: "right t \<noteq> NoneT" by (auto simp: b_def)
  define u v where "u = get_height (left (right t))" and "v = get_height (right (right t))"
  from dr rn have dcl: "height_dominant (left (right t))" and dcr: "height_dominant (right (right t))"
    and buv: "1 + max u v \<le> b"
    by (simp_all add: dominant_node u_def v_def b_def)
  from height_nonneg[OF dcl] height_nonneg[OF dcr] have u0: "0 \<le> u" and v0: "0 \<le> v"
    by (simp_all add: u_def v_def)
  have bs: "below_sum t = height_sum (left t) + b + height_sum (left (right t))
      + height_sum (right (right t))"
    using rn by (simp add: below_sum_def height_sum_node b_def)
  have topt: "top t = b" using ab by (simp add: top_def a_def b_def)
  note sl = height_sum_nonneg[OF dl]
  show ?thesis
  proof (cases "u > v")
    case False
    define tn where "tn = left_rotate_writes (update_size t)"
    have tnn: "tn \<noteq> NoneT" and ltn: "left tn \<noteq> NoneT"
      and hl: "get_height (left tn) = max a u + 1" and hr: "get_height (right tn) = v"
      and ll: "get_height (left (left tn)) = a" and rl: "get_height (right (left tn)) = u"
      using left_rotate_writes_sel[of "update_size t"] tn0 rn
      by (simp_all add: tn_def a_def u_def v_def)
    have dtn: "height_dominant tn"
      unfolding tn_def using tn0 rn dl dcl dcr by (intro dominant_left_rotate_writes) simp_all
    have bstn: "below_sum tn = (max a u + 1) + height_sum (left t)
        + height_sum (left (right t)) + height_sum (right (right t))"
      unfolding tn_def using tn0 rn
      by (simp add: below_sum_left_rotate_writes a_def u_def)
    have toptn: "top tn \<le> top t" using hl hr topt ab buv by (auto simp: top_def)
    have reb: "rebalance t = Some (Return f)" if "rebalance tn = Some (Return f)" for f
      using rebalance_left[OF tn0 heavy rn _ that[unfolded tn_def]] False
      by (simp add: u_def v_def)
    show ?thesis
    proof (cases "below_sum tn < below_sum t")
      case True
      from IH[OF True dtn tnn] obtain f where f: "rebalance tn = Some (Return f)" "rebalanced tn f"
        by blast
      from reb[OF f(1)] rebalanced_after_step[OF f(2) True toptn] show ?thesis by blast
    next
      case eq: False
      with bs bstn ab buv False have ub: "u = b - 1" and vb: "v = b - 1" by auto
      with hl hr ab tnn have "\<not> 2 \<le> get_balance tn" "\<not> get_balance tn \<le> - 2"
        by (simp_all add: balance_node)
      from rebalance_stop[OF tnn this] have f: "rebalance tn = Some (Return (update_size tn))" .
      have "rebalanced t (update_size tn)"
        using tnn dtn ltn hl hr ll rl ub vb ab topt toptn bs bstn heavy
        by (auto simp: rebalanced_def tie_right_def tie_left_def balance_node b_def)
      with reb[OF f] show ?thesis by blast
    qed
  next
    case True
    with v0 height_zero_None[OF dcl] have cln: "left (right t) \<noteq> NoneT" by (auto simp: u_def)
    define g p where "g = get_height (left (left (right t)))"
      and "p = get_height (right (left (right t)))"
    from dcl cln have dgl: "height_dominant (left (left (right t)))"
      and dgr: "height_dominant (right (left (right t)))" and ugp: "1 + max g p \<le> u"
      by (simp_all add: dominant_node g_def p_def u_def)
    from height_nonneg[OF dgl] height_nonneg[OF dgr] have g0: "0 \<le> g" and p0: "0 \<le> p"
      by (simp_all add: g_def p_def)
    define tin where "tin = right_rotate_writes (right t)"
    have tinn: "tin \<noteq> NoneT"
      and hlin: "get_height (left tin) = g" and hrin: "get_height (right tin) = max p v + 1"
      using right_rotate_writes_sel[of "right t"] rn cln
      by (simp_all add: tin_def g_def p_def v_def)
    have dtin: "height_dominant tin"
      unfolding tin_def using rn cln dgl dgr dcr buv True ugp
      by (intro dominant_right_rotate_writes) (simp_all add: p_def[symmetric] v_def[symmetric] b_def[symmetric])
    have bstin: "below_sum tin = (max p v + 1) + height_sum (left (left (right t)))
        + height_sum (right (left (right t))) + height_sum (right (right t))"
      unfolding tin_def using rn cln by (simp add: below_sum_right_rotate_writes p_def v_def)
    have hscl: "height_sum (left (right t)) = u + height_sum (left (left (right t)))
        + height_sum (right (left (right t)))"
      using cln by (simp add: height_sum_node u_def)
    from bs bstin hscl sl ugp True buv u0 v0
    have lt_in: "below_sum tin < below_sum t" by auto
    from IH[OF lt_in dtin tinn] obtain d where d: "rebalance tin = Some (Return d)"
      and rd: "rebalanced tin d" by blast
    from rd have dn: "d \<noteq> NoneT" and dd: "height_dominant d"
      and bsd: "below_sum d \<le> below_sum tin" and topd: "top d \<le> top tin"
      and bald: "\<bar>get_balance d\<bar> \<le> 1" and tied: "tie_right tin d"
      by (simp_all add: rebalanced_def)
    define x y where "x = get_height (left d)" and "y = get_height (right d)"
    from dd dn have ddl: "height_dominant (left d)" and ddr: "height_dominant (right d)"
      by (simp_all add: dominant_node)
    from topd hlin hrin ugp True have xu: "x \<le> u" and yu: "y \<le> u"
      by (auto simp: top_def x_def y_def)
    from bald dn have xy: "\<bar>y - x\<bar> \<le> 1" by (simp add: balance_node x_def y_def)
    define tn where "tn = left_rotate_writes (set_right (update_size t) d)"
    have tnn: "tn \<noteq> NoneT" and ltn: "left tn \<noteq> NoneT"
      and hl: "get_height (left tn) = max a x + 1" and hr: "get_height (right tn) = y"
      and ll: "left (left tn) = left t" and rl: "right (left tn) = left d"
      and rtn: "right tn = right d"
      and htn: "get_height tn = max (max a x + 1) y + 1"
      using left_rotate_writes_sel[of "set_right (update_size t) d"] tn0 dn
      by (simp_all add: tn_def a_def x_def y_def)
    have dtn: "height_dominant tn"
      unfolding tn_def using tn0 dn dl ddl ddr by (intro dominant_left_rotate_writes) simp_all
    have bstn: "below_sum tn = (max a x + 1) + height_sum (left t) + below_sum d"
      using below_sum_left_rotate_writes[of "set_right (update_size t) d"] tn0 dn
      by (simp add: tn_def a_def x_def below_sum_def[of d])
    have toptn: "top tn \<le> top t" using hl hr topt ab buv xu yu by (auto simp: top_def)
    have reb: "rebalance t = Some (Return f)" if "rebalance tn = Some (Return f)" for f
      using rebalance_right_left[OF tn0 heavy rn _ cln d[unfolded tin_def] dn that[unfolded tn_def]]
        True by (simp add: u_def v_def)
    have le: "below_sum tn \<le> below_sum t"
      using bs bstn bstin bsd hscl ab buv xu ugp True by auto
    show ?thesis
    proof (cases "below_sum tn < below_sum t")
      case True
      from IH[OF True dtn tnn] obtain f where f: "rebalance tn = Some (Return f)" "rebalanced tn f"
        by blast
      from reb[OF f(1)] rebalanced_after_step[OF f(2) True toptn] show ?thesis by blast
    next
      case False
      with le have eq: "below_sum tn = below_sum t" by simp
      from eq bs bstn bstin bsd hscl ab buv xu ugp \<open>v < u\<close>
      have xb: "x = b - 1" and ux: "u = b - 1" and pv: "max p v + 1 = u"
        and bsd_eq: "below_sum d = below_sum tin"
        by auto
      from xy yu xb ux consider (bal) "y = b - 1" | (cont) "y = b - 2" by linarith
      then show ?thesis
      proof cases
        case bal
        with hl hr ab xb tnn have "\<not> 2 \<le> get_balance tn" "\<not> get_balance tn \<le> - 2"
          by (simp_all add: balance_node)
        from rebalance_stop[OF tnn this] have f: "rebalance tn = Some (Return (update_size tn))" .
        have "rebalanced t (update_size tn)"
          using tnn dtn ltn hl hr ll rl bal xb ab topt toptn eq heavy
          by (auto simp: rebalanced_def tie_right_def tie_left_def balance_node b_def a_def x_def)
        with reb[OF f] show ?thesis by blast
      next
        case cont
        have heavy_in: "2 \<le> get_balance tin"
        proof (rule ccontr)
          assume "\<not> 2 \<le> get_balance tin"
          moreover from hlin hrin pv ugp tinn have "\<not> get_balance tin \<le> - 2"
            by (simp add: balance_node)
          ultimately have "rebalance tin = Some (Return (update_size tin))"
            using rebalance_stop[OF tinn] by blast
          with d have "d = update_size tin" by simp
          with hrin pv have "y = u" by (simp add: y_def)
          with cont ux show False by simp
        qed
        from tied heavy_in bsd_eq hrin pv
        have ldn: "left d \<noteq> NoneT" and e2: "get_height (right (left d)) = u - 1"
          and e1: "get_height (left (left d)) \<le> u - 2"
          by (auto simp: tie_right_def x_def[symmetric] xb ux)
        define n' where "n' = left tn"
        have n'n: "n' \<noteq> NoneT" and rn': "right n' \<noteq> NoneT" and ln': "left n' = left t"
          and rn'd: "right n' = left d"
          using ltn ll rl ldn by (simp_all add: n'_def)
        from ddl ldn have del: "height_dominant (left (left d))"
          and der: "height_dominant (right (left d))"
          by (simp_all add: dominant_node)
        define e where "e = get_height (left (left d))"
        define t2 where "t2 = left_rotate_writes n'"
        have t2n: "t2 \<noteq> NoneT"
          and hl2: "get_height (left t2) = max a e + 1" and hr2: "get_height (right t2) = u - 1"
          using left_rotate_writes_sel[OF n'n rn'] ln' rn'd e2
          by (simp_all add: t2_def a_def e_def)
        have dt2: "height_dominant t2"
          unfolding t2_def using n'n rn' dl del der ln' rn'd
          by (intro dominant_left_rotate_writes) simp_all
        have bst2: "below_sum t2 = (max a e + 1) + height_sum (left t)
            + height_sum (left (left d)) + height_sum (right (left d))"
          unfolding t2_def using below_sum_left_rotate_writes[OF n'n rn'] ln' rn'd
          by (simp add: a_def e_def)
        have hsld: "height_sum (left d) = u + height_sum (left (left d))
            + height_sum (right (left d))"
          using ldn xb ux by (simp add: height_sum_node x_def[symmetric])
        have bsd': "below_sum d = height_sum (left d) + height_sum (right d)"
          by (simp add: below_sum_def)
        note srd = height_sum_nonneg[OF ddr]
        from e1 have eu: "e \<le> u - 2" by (simp add: e_def)
        have lt2: "below_sum t2 < below_sum t"
          using bst2 bstn bsd' hsld srd eq xb ux ab eu a0 by auto
        from IH[OF lt2 dt2 t2n] obtain m where m: "rebalance t2 = Some (Return m)"
          and rm: "rebalanced t2 m" by blast
        from rm have mn: "m \<noteq> NoneT" and dm: "height_dominant m"
          and bsm: "below_sum m \<le> below_sum t2" and topm: "top m \<le> top t2"
          by (simp_all add: rebalanced_def)
        from dm mn have dml: "height_dominant (left m)" and dmr: "height_dominant (right m)"
          by (simp_all add: dominant_node)
        define m1 m2 where "m1 = get_height (left m)" and "m2 = get_height (right m)"
        from topm hl2 hr2 eu ab ux have m1u: "m1 \<le> u" and m2u: "m2 \<le> u"
          by (auto simp: top_def m1_def m2_def)
        define tn2 where "tn2 = right_rotate_writes (set_left (update_size tn) m)"
        have tn2n: "tn2 \<noteq> NoneT"
          and hl3: "get_height (left tn2) = m1"
          and hr3: "get_height (right tn2) = max m2 y + 1"
          using right_rotate_writes_sel[of "set_left (update_size tn) m"] tnn mn hr
          by (simp_all add: tn2_def m1_def m2_def)
        have dtn2: "height_dominant tn2"
          unfolding tn2_def using tnn mn dml dmr ddr rtn htn hr m2u cont ux xb ab
          by (intro dominant_right_rotate_writes) (simp_all add: m2_def[symmetric])
        have bstn2: "below_sum tn2 = (max m2 y + 1) + below_sum m + height_sum (right d)"
          using below_sum_right_rotate_writes[of "set_left (update_size tn) m"] tnn mn rtn hr
          by (simp add: tn2_def m2_def below_sum_def[of m])
        have strict: "max a e + 1 + (max m2 y + 1) < b + u"
        proof (cases "max a e + 1 = u")
          case True
          with eu have "a = u - 1" by auto
          with hl2 hr2 t2n eu have "\<not> 2 \<le> get_balance t2" "\<not> get_balance t2 \<le> - 2"
            by (simp_all add: balance_node)
          from rebalance_stop[OF t2n this] m have "m = update_size t2" by simp
          with hr2 have "m2 = u - 1" by (simp add: m2_def)
          with cont ux True show ?thesis by linarith
        next
          case False
          with eu ab ux m2u cont show ?thesis by linarith
        qed
        have lt3: "below_sum tn2 < below_sum t"
          using bstn2 bsm bst2 bstn bsd' hsld eq strict xb by simp
        have toptn2: "top tn2 \<le> top t"
          using hl3 hr3 topt m1u m2u cont ux by (auto simp: top_def)
        from IH[OF lt3 dtn2 tn2n] obtain f where f: "rebalance tn2 = Some (Return f)"
          and rf: "rebalanced tn2 f" by blast
        have "get_balance tn \<le> - 2" using hl hr xb cont ab tnn by (simp add: balance_node)
        moreover have "get_height (right (left tn)) > get_height (left (left tn))"
          using ll rl xb ab by (simp add: a_def x_def)
        moreover have "right (left tn) \<noteq> NoneT" using rl ldn by simp
        ultimately have "rebalance tn = Some (Return f)"
          using rebalance_left_right[OF tnn _ ltn _ _ m[unfolded t2_def n'_def] mn f[unfolded tn2_def]]
          by blast
        from reb[OF this] rebalanced_after_step[OF rf lt3 toptn2] show ?thesis by blast
      qed
    qed
  qed
qed


lemma rebalance_left_heavy:
  fixes t :: "('k, 'i) tree"
  assumes IH: "\<And>t' :: ('k, 'i) tree. below_sum t' < below_sum t \<Longrightarrow> height_dominant t' \<Longrightarrow> t' \<noteq> NoneT
        \<Longrightarrow> \<exists>d. rebalance t' = Some (Return d) \<and> rebalanced t' d"
    and dom: "height_dominant t" and tn0: "t \<noteq> NoneT" and heavy: "get_balance t \<le> - 2"
  shows "\<exists>d. rebalance t = Some (Return d) \<and> rebalanced t d"
proof -
  define a b where "a = get_height (left t)" and "b = get_height (right t)"
  from dom tn0 have dl: "height_dominant (left t)" and dr: "height_dominant (right t)"
    and ht: "1 + max a b \<le> get_height t"
    by (simp_all add: dominant_node a_def b_def)
  from heavy tn0 have ab: "b + 2 \<le> a" by (simp add: balance_node a_def b_def)
  from height_nonneg[OF dr] have b0: "0 \<le> b" by (simp add: b_def)
  from ab b0 height_zero_None[OF dl] have ln: "left t \<noteq> NoneT" by (auto simp: a_def)
  define u v where "u = get_height (right (left t))" and "v = get_height (left (left t))"
  from dl ln have dcl: "height_dominant (left (left t))" and dcr: "height_dominant (right (left t))"
    and auv: "1 + max u v \<le> a"
    by (auto simp: dominant_node u_def v_def a_def)
  from height_nonneg[OF dcl] height_nonneg[OF dcr] have u0: "0 \<le> u" and v0: "0 \<le> v"
    by (simp_all add: u_def v_def)
  have bs: "below_sum t = a + height_sum (left (left t)) + height_sum (right (left t))
      + height_sum (right t)"
    using ln by (simp add: below_sum_def height_sum_node a_def)
  have topt: "top t = a" using ab by (simp add: top_def a_def b_def)
  note sr = height_sum_nonneg[OF dr]
  have notr: "\<not> 2 \<le> get_balance t" using heavy by simp
  show ?thesis
  proof (cases "u > v")
    case False
    define tn where "tn = right_rotate_writes (update_size t)"
    have tnn: "tn \<noteq> NoneT" and rtn: "right tn \<noteq> NoneT"
      and hr: "get_height (right tn) = max u b + 1" and hl: "get_height (left tn) = v"
      and rr: "get_height (right (right tn)) = b" and lr: "get_height (left (right tn)) = u"
      using right_rotate_writes_sel[of "update_size t"] tn0 ln
      by (simp_all add: tn_def b_def u_def v_def)
    have dtn: "height_dominant tn"
      unfolding tn_def using tn0 ln dr dcl dcr ht auv
      by (intro dominant_right_rotate_writes)
        (auto simp: u_def[symmetric] b_def[symmetric])
    have bstn: "below_sum tn = (max u b + 1) + height_sum (left (left t))
        + height_sum (right (left t)) + height_sum (right t)"
      unfolding tn_def using tn0 ln
      by (simp add: below_sum_right_rotate_writes b_def u_def)
    have toptn: "top tn \<le> top t" using hl hr topt ab auv by (auto simp: top_def)
    have reb: "rebalance t = Some (Return f)" if "rebalance tn = Some (Return f)" for f
      using rebalance_right[OF tn0 heavy ln _ that[unfolded tn_def]] False
      by (simp add: u_def v_def)
    show ?thesis
    proof (cases "below_sum tn < below_sum t")
      case True
      from IH[OF True dtn tnn] obtain f where f: "rebalance tn = Some (Return f)" "rebalanced tn f"
        by blast
      from reb[OF f(1)] rebalanced_after_step[OF f(2) True toptn] show ?thesis by blast
    next
      case eq: False
      with bs bstn ab auv False have ua: "u = a - 1" and va: "v = a - 1" by auto
      with hl hr ab tnn have "\<not> 2 \<le> get_balance tn" "\<not> get_balance tn \<le> - 2"
        by (simp_all add: balance_node)
      from rebalance_stop[OF tnn this] have f: "rebalance tn = Some (Return (update_size tn))" .
      have "rebalanced t (update_size tn)"
        using tnn dtn rtn hl hr rr lr ua va ab topt toptn bs bstn notr
        by (auto simp: rebalanced_def tie_right_def tie_left_def balance_node a_def)
      with reb[OF f] show ?thesis by blast
    qed
  next
    case True
    with v0 height_zero_None[OF dcr] have crn: "right (left t) \<noteq> NoneT" by (auto simp: u_def)
    define g p where "g = get_height (right (right (left t)))"
      and "p = get_height (left (right (left t)))"
    from dcr crn have dgl: "height_dominant (left (right (left t)))"
      and dgr: "height_dominant (right (right (left t)))" and ugp: "1 + max g p \<le> u"
      by (auto simp: dominant_node g_def p_def u_def)
    define tin where "tin = left_rotate_writes (left t)"
    have tinn: "tin \<noteq> NoneT"
      and hrin: "get_height (right tin) = g" and hlin: "get_height (left tin) = max v p + 1"
      using left_rotate_writes_sel[of "left t"] ln crn
      by (simp_all add: tin_def g_def p_def v_def)
    have dtin: "height_dominant tin"
      unfolding tin_def using ln crn dgl dgr dcl
      by (intro dominant_left_rotate_writes) simp_all
    have bstin: "below_sum tin = (max v p + 1) + height_sum (left (left t))
        + height_sum (left (right (left t))) + height_sum (right (right (left t)))"
      unfolding tin_def using ln crn by (simp add: below_sum_left_rotate_writes p_def v_def)
    have hscr: "height_sum (right (left t)) = u + height_sum (left (right (left t)))
        + height_sum (right (right (left t)))"
      using crn by (simp add: height_sum_node u_def)
    from bs bstin hscr sr ugp True auv u0 v0
    have lt_in: "below_sum tin < below_sum t" by auto
    from IH[OF lt_in dtin tinn] obtain d where d: "rebalance tin = Some (Return d)"
      and rd: "rebalanced tin d" by blast
    from rd have dn: "d \<noteq> NoneT" and dd: "height_dominant d"
      and bsd: "below_sum d \<le> below_sum tin" and topd: "top d \<le> top tin"
      and bald: "\<bar>get_balance d\<bar> \<le> 1" and tied: "tie_left tin d"
      by (simp_all add: rebalanced_def)
    define x y where "x = get_height (right d)" and "y = get_height (left d)"
    from dd dn have ddl: "height_dominant (left d)" and ddr: "height_dominant (right d)"
      by (simp_all add: dominant_node)
    from topd hlin hrin ugp True have xu: "x \<le> u" and yu: "y \<le> u"
      by (auto simp: top_def x_def y_def)
    from bald dn have xy: "\<bar>y - x\<bar> \<le> 1" by (simp add: balance_node x_def y_def)
    define tn where "tn = right_rotate_writes (set_left (update_size t) d)"
    have tnn: "tn \<noteq> NoneT" and rtn: "right tn \<noteq> NoneT"
      and hr: "get_height (right tn) = max x b + 1" and hl: "get_height (left tn) = y"
      and rr: "right (right tn) = right t" and lr: "left (right tn) = right d"
      and ltn: "left tn = left d"
      using right_rotate_writes_sel[of "set_left (update_size t) d"] tn0 dn
      by (simp_all add: tn_def b_def x_def y_def)
    have dtn: "height_dominant tn"
      unfolding tn_def using tn0 dn dr ddl ddr ht xu auv
      by (intro dominant_right_rotate_writes)
        (auto simp: x_def[symmetric] b_def[symmetric])
    have bstn: "below_sum tn = (max x b + 1) + below_sum d + height_sum (right t)"
      using below_sum_right_rotate_writes[of "set_left (update_size t) d"] tn0 dn
      by (simp add: tn_def b_def x_def below_sum_def[of d])
    have toptn: "top tn \<le> top t" using hl hr topt ab auv xu yu by (auto simp: top_def)
    have reb: "rebalance t = Some (Return f)" if "rebalance tn = Some (Return f)" for f
      using rebalance_left_right[OF tn0 heavy ln _ crn d[unfolded tin_def] dn that[unfolded tn_def]]
        True by (simp add: u_def v_def)
    have le: "below_sum tn \<le> below_sum t"
      using bs bstn bstin bsd hscr ab auv xu ugp True by auto
    show ?thesis
    proof (cases "below_sum tn < below_sum t")
      case True
      from IH[OF True dtn tnn] obtain f where f: "rebalance tn = Some (Return f)" "rebalanced tn f"
        by blast
      from reb[OF f(1)] rebalanced_after_step[OF f(2) True toptn] show ?thesis by blast
    next
      case False
      with le have eq: "below_sum tn = below_sum t" by simp
      from eq bs bstn bstin bsd hscr ab auv xu ugp \<open>v < u\<close>
      have xa: "x = a - 1" and ux: "u = a - 1" and pv: "max v p + 1 = u"
        and bsd_eq: "below_sum d = below_sum tin"
        by auto
      from xy yu xa ux consider (bal) "y = a - 1" | (cont) "y = a - 2" by linarith
      then show ?thesis
      proof cases
        case bal
        with hl hr ab xa tnn have "\<not> 2 \<le> get_balance tn" "\<not> get_balance tn \<le> - 2"
          by (simp_all add: balance_node)
        from rebalance_stop[OF tnn this] have f: "rebalance tn = Some (Return (update_size tn))" .
        have "rebalanced t (update_size tn)"
          using tnn dtn rtn hl hr rr lr bal xa ab topt toptn eq notr
          by (auto simp: rebalanced_def tie_right_def tie_left_def balance_node b_def a_def x_def)
        with reb[OF f] show ?thesis by blast
      next
        case cont
        have heavy_in: "get_balance tin \<le> - 2"
        proof (rule ccontr)
          assume "\<not> get_balance tin \<le> - 2"
          moreover from hlin hrin pv ugp tinn have "\<not> 2 \<le> get_balance tin"
            by (simp add: balance_node)
          ultimately have "rebalance tin = Some (Return (update_size tin))"
            using rebalance_stop[OF tinn] by blast
          with d have "d = update_size tin" by simp
          with hlin pv have "y = u" by (simp add: y_def)
          with cont ux show False by simp
        qed
        from tied heavy_in bsd_eq hlin pv
        have rdn: "right d \<noteq> NoneT" and e2: "get_height (left (right d)) = u - 1"
          and e1: "get_height (right (right d)) \<le> u - 2"
          by (auto simp: tie_left_def x_def[symmetric] xa ux)
        define n' where "n' = right tn"
        have n'n: "n' \<noteq> NoneT" and ln': "left n' \<noteq> NoneT" and rn': "right n' = right t"
          and ln'd: "left n' = right d" and hn': "get_height n' = a"
          using rtn rr lr rdn hr xa ab by (simp_all add: n'_def)
        from ddr rdn have del: "height_dominant (left (right d))"
          and der: "height_dominant (right (right d))"
          by (simp_all add: dominant_node)
        define e where "e = get_height (right (right d))"
        from e1 have eu: "e \<le> u - 2" by (simp add: e_def)
        define t2 where "t2 = right_rotate_writes n'"
        have t2n: "t2 \<noteq> NoneT"
          and hr2: "get_height (right t2) = max e b + 1" and hl2: "get_height (left t2) = u - 1"
          using right_rotate_writes_sel[OF n'n ln'] rn' ln'd e2
          by (simp_all add: t2_def b_def e_def)
        have dt2: "height_dominant t2"
          unfolding t2_def using n'n ln' dr del der rn' ln'd hn' eu ux ab
          by (intro dominant_right_rotate_writes)
            (auto simp: e_def[symmetric] b_def[symmetric])
        have bst2: "below_sum t2 = (max e b + 1) + height_sum (left (right d))
            + height_sum (right (right d)) + height_sum (right t)"
          unfolding t2_def using below_sum_right_rotate_writes[OF n'n ln'] rn' ln'd
          by (simp add: b_def e_def)
        have hsrd: "height_sum (right d) = u + height_sum (left (right d))
            + height_sum (right (right d))"
          using rdn xa ux by (simp add: height_sum_node x_def[symmetric])
        have bsd': "below_sum d = height_sum (left d) + height_sum (right d)"
          by (simp add: below_sum_def)
        note sld = height_sum_nonneg[OF ddl]
        have lt2: "below_sum t2 < below_sum t"
          using bst2 bstn bsd' hsrd sld eq xa ux ab eu b0 by auto
        from IH[OF lt2 dt2 t2n] obtain m where m: "rebalance t2 = Some (Return m)"
          and rm: "rebalanced t2 m" by blast
        from rm have mn: "m \<noteq> NoneT" and dm: "height_dominant m"
          and bsm: "below_sum m \<le> below_sum t2" and topm: "top m \<le> top t2"
          by (simp_all add: rebalanced_def)
        from dm mn have dml: "height_dominant (left m)" and dmr: "height_dominant (right m)"
          by (simp_all add: dominant_node)
        define m1 m2 where "m1 = get_height (left m)" and "m2 = get_height (right m)"
        from topm hl2 hr2 eu ab ux have m1u: "m1 \<le> u" and m2u: "m2 \<le> u"
          by (auto simp: top_def m1_def m2_def)
        define tn2 where "tn2 = left_rotate_writes (set_right (update_size tn) m)"
        have tn2n: "tn2 \<noteq> NoneT"
          and hr3: "get_height (right tn2) = m2"
          and hl3: "get_height (left tn2) = max y m1 + 1"
          using left_rotate_writes_sel[of "set_right (update_size tn) m"] tnn mn hl
          by (simp_all add: tn2_def m1_def m2_def)
        have dtn2: "height_dominant tn2"
          unfolding tn2_def using tnn mn dml dmr ddl ltn
          by (intro dominant_left_rotate_writes) simp_all
        have bstn2: "below_sum tn2 = (max y m1 + 1) + height_sum (left d) + below_sum m"
          using below_sum_left_rotate_writes[of "set_right (update_size tn) m"] tnn mn ltn hl
          by (simp add: tn2_def m1_def below_sum_def[of m])
        have strict: "max e b + 1 + (max y m1 + 1) < a + u"
        proof (cases "max e b + 1 = u")
          case True
          with eu have "b = u - 1" by auto
          with hl2 hr2 t2n eu have "\<not> 2 \<le> get_balance t2" "\<not> get_balance t2 \<le> - 2"
            by (simp_all add: balance_node)
          from rebalance_stop[OF t2n this] m have "m = update_size t2" by simp
          with hl2 have "m1 = u - 1" by (simp add: m1_def)
          with cont ux True show ?thesis by linarith
        next
          case False
          with eu ab ux m1u cont show ?thesis by linarith
        qed
        have lt3: "below_sum tn2 < below_sum t"
          using bstn2 bsm bst2 bstn bsd' hsrd eq strict xa ab by simp
        have toptn2: "top tn2 \<le> top t"
          using hl3 hr3 topt m1u m2u cont ux by (auto simp: top_def)
        from IH[OF lt3 dtn2 tn2n] obtain f where f: "rebalance tn2 = Some (Return f)"
          and rf: "rebalanced tn2 f" by blast
        have "2 \<le> get_balance tn" using hl hr xa cont ab tnn by (simp add: balance_node)
        moreover have "get_height (left (right tn)) > get_height (right (right tn))"
          using rr lr xa ab by (simp add: b_def x_def)
        moreover have "left (right tn) \<noteq> NoneT" using lr rdn by simp
        ultimately have "rebalance tn = Some (Return f)"
          using rebalance_right_left[OF tnn _ rtn _ _ m[unfolded t2_def n'_def] mn f[unfolded tn2_def]]
          by blast
        from reb[OF this] rebalanced_after_step[OF rf lt3 toptn2] show ?thesis by blast
      qed
    qed
  qed
qed

theorem rebalance_total:
  "height_dominant t \<Longrightarrow> t \<noteq> NoneT \<Longrightarrow> \<exists>d. rebalance t = Some (Return d) \<and> rebalanced t d"
proof (induction "nat (below_sum t)" arbitrary: t rule: less_induct)
  case less
  have IH: "\<exists>d. rebalance t' = Some (Return d) \<and> rebalanced t' d"
    if "below_sum t' < below_sum t" "height_dominant t'" "t' \<noteq> NoneT" for t' :: "('a, 'b) tree"
  proof -
    from that(2,3) have "0 \<le> below_sum t'"
      using height_sum_nonneg by (auto simp: below_sum_def dominant_node intro!: add_nonneg_nonneg)
    with that(1) have "nat (below_sum t') < nat (below_sum t)" by simp
    from less.hyps[OF this that(2,3)] show ?thesis .
  qed
  consider (stop) "\<not> 2 \<le> get_balance t" "\<not> get_balance t \<le> - 2"
    | (right_heavy) "2 \<le> get_balance t" | (left_heavy) "get_balance t \<le> - 2" by blast
  then show ?case
  proof cases
    case stop
    from rebalance_stop[OF less.prems(2) stop]
    have "rebalance t = Some (Return (update_size t))" .
    moreover from stop less.prems have "rebalanced t (update_size t)"
      by (auto simp: rebalanced_def tie_right_def tie_left_def)
    ultimately show ?thesis by blast
  next
    case right_heavy
    from rebalance_right_heavy[OF IH less.prems right_heavy] show ?thesis by blast
  next
    case left_heavy
    from rebalance_left_heavy[OF IH less.prems left_heavy] show ?thesis by blast
  qed
qed

subsection \<open>Insertion\<close>

lemma keys_Node [simp]: "keys (AVLTreeNode k v l r h s) = keys l @ k # keys r"
  by (simp add: keys_def)

lemma keys_None [simp]: "keys NoneT = []"
  by (simp add: keys_def)

lemma sorted_keys_Node:
  "sorted_keys (AVLTreeNode k v l r h s) =
     (sorted_keys l \<and> sorted_keys r \<and> (\<forall>a \<in> set (keys l). a < k) \<and> (\<forall>b \<in> set (keys r). k < b))"
  by (fastforce simp: sorted_keys_def sorted_wrt_append)

lemma ins_list_right:
  "\<forall>p \<in> set xs. fst p < k \<Longrightarrow> c < k
     \<Longrightarrow> ins_list k v (xs @ (c, d) # ys) = xs @ (c, d) # ins_list k v ys"
  by (induction xs) auto

lemma ins_list_left:
  "k < c \<Longrightarrow> ins_list k v (xs @ (c, d) # ys) = ins_list k v xs @ (c, d) # ys"
  by (induction xs) auto

lemma set_ins_list: "set (ins_list k v xs) = insert (k, v) (set xs)"
  by (induction xs) (auto split: if_splits)

lemma length_ins_list: "length (ins_list k v xs) = Suc (length xs)"
  by (induction xs) auto

lemma sorted_ins_list:
  "sorted_wrt (<) (map fst xs) \<Longrightarrow> k \<notin> fst ` set xs \<Longrightarrow> sorted_wrt (<) (map fst (ins_list k v xs))"
  by (induction xs) (fastforce simp: set_ins_list)+

lemma insert_finish_Return:
  assumes "insert_finish t n = Some (Return (t', n'))"
  shows "inorder t' = inorder t" and "n' = n"
    and "children_consistent t \<Longrightarrow> size_consistent t'"
proof -
  from assms obtain u where u: "rebalance (update_size (update_height t)) = Some (Return u)"
    and t': "t' = u" and n': "n' = n"
    by (auto simp: insert_finish_def Let_def split: option.splits outcome.splits)
  show "inorder t' = inorder t" using rebalance_inorder[OF u] t' by simp
  show "n' = n" by (rule n')
  show "size_consistent t'" if "children_consistent t"
    using rebalance_size_consistent[OF u] that t' by (cases t) auto
qed

lemma insert_aux_Return:
  "insert_aux n t k v = Some (Return (t', n')) \<Longrightarrow> sorted_keys t
     \<Longrightarrow> inorder t' = ins_list k v (inorder t) \<and> n' = n + 1 \<and> k \<notin> set (keys t)"
proof (induction t arbitrary: t' n')
  case NoneT
  then show ?case
    using insert_finish_Return(1,2)[of "new_node k v" "n + 1" t' n']
    by (simp add: new_node_def)
next
  case (AVLTreeNode ck cv l r h s)
  let ?cur = "AVLTreeNode ck cv l r h s"
  from AVLTreeNode.prems(2) have sl: "sorted_keys l" and sr: "sorted_keys r"
    and ll: "\<forall>a \<in> set (keys l). a < ck" and rr: "\<forall>b \<in> set (keys r). ck < b"
    by (auto simp: sorted_keys_Node)
  show ?case
  proof (cases "k > ck")
    case True
    with AVLTreeNode.prems(1) obtain r' m where
      rec: "insert_aux n r k v = Some (Return (r', m))"
      and fin: "insert_finish (set_right ?cur r') m = Some (Return (t', n'))"
      by (auto simp: Let_def split: option.splits outcome.splits)
    from ll True have "\<forall>p \<in> set (inorder l). fst p < k"
      by (fastforce simp: keys_def)
    with AVLTreeNode.IH(2)[OF rec sr] insert_finish_Return(1,2)[OF fin] True ll
    show ?thesis
      by (auto simp: ins_list_right keys_def)
  next
    case False
    note nk = this
    show ?thesis
    proof (cases "k < ck")
      case True
      with nk AVLTreeNode.prems(1) obtain l' m where
        rec: "insert_aux n l k v = Some (Return (l', m))"
        and fin: "insert_finish (set_left ?cur l') m = Some (Return (t', n'))"
        by (auto simp: Let_def split: option.splits outcome.splits)
      from AVLTreeNode.IH(1)[OF rec sl] insert_finish_Return(1,2)[OF fin] True rr
      show ?thesis
        by (auto simp: ins_list_left keys_def)
    next
      case False
      with nk AVLTreeNode.prems(1) show ?thesis by (simp add: Let_def)
    qed
  qed
qed

lemma insert_aux_size_consistent:
  "insert_aux n t k v = Some (Return (t', n')) \<Longrightarrow> size_consistent t \<Longrightarrow> size_consistent t'"
proof (induction t arbitrary: t' n')
  case NoneT
  then show ?case
    using insert_finish_Return(3)[of "new_node k v" "n + 1" t' n']
    by (simp add: new_node_def)
next
  case (AVLTreeNode ck cv l r h s)
  let ?cur = "AVLTreeNode ck cv l r h s"
  show ?case
  proof (cases "k > ck")
    case True
    with AVLTreeNode.prems(1) obtain r' m where
      rec: "insert_aux n r k v = Some (Return (r', m))"
      and fin: "insert_finish (set_right ?cur r') m = Some (Return (t', n'))"
      by (auto simp: Let_def split: option.splits outcome.splits)
    from AVLTreeNode.IH(2)[OF rec] insert_finish_Return(3)[OF fin] AVLTreeNode.prems(2)
    show ?thesis by auto
  next
    case False
    note nk = this
    show ?thesis
    proof (cases "k < ck")
      case True
      with nk AVLTreeNode.prems(1) obtain l' m where
        rec: "insert_aux n l k v = Some (Return (l', m))"
        and fin: "insert_finish (set_left ?cur l') m = Some (Return (t', n'))"
        by (auto simp: Let_def split: option.splits outcome.splits)
      from AVLTreeNode.IH(1)[OF rec] insert_finish_Return(3)[OF fin] AVLTreeNode.prems(2)
      show ?thesis by auto
    next
      case False
      with nk AVLTreeNode.prems(1) show ?thesis by (simp add: Let_def)
    qed
  qed
qed

lemma insert_aux_duplicate:
  "sorted_keys t \<Longrightarrow> k \<in> set (keys t)
     \<Longrightarrow> insert_aux n t k v = Some (Raise Duplicate_item (Some (t, n)))"
proof (induction t)
  case NoneT
  then show ?case by simp
next
  case (AVLTreeNode ck cv l r h s)
  from AVLTreeNode.prems(1) have sl: "sorted_keys l" and sr: "sorted_keys r"
    and ll: "\<forall>a \<in> set (keys l). a < ck" and rr: "\<forall>b \<in> set (keys r). ck < b"
    by (auto simp: sorted_keys_Node)
  show ?case
  proof (cases "k > ck")
    case True
    with ll AVLTreeNode.prems(2) have "k \<in> set (keys r)" by auto
    with AVLTreeNode.IH(2)[OF sr] True show ?thesis by (simp add: Let_def)
  next
    case False
    note nk = this
    show ?thesis
    proof (cases "k < ck")
      case True
      with rr AVLTreeNode.prems(2) have "k \<in> set (keys l)" by auto
      with AVLTreeNode.IH(1)[OF sl] True nk show ?thesis by (simp add: Let_def)
    next
      case False
      with nk show ?thesis by (simp add: Let_def)
    qed
  qed
qed


subsection \<open>Deletion\<close>

lemma del_list_left:
  "k \<in> fst ` set xs \<Longrightarrow> del_list k (xs @ ys) = del_list k xs @ ys"
  by (induction xs) force+

lemma del_list_right:
  "k \<notin> fst ` set xs \<Longrightarrow> del_list k (xs @ ys) = xs @ del_list k ys"
  by (induction xs) auto

lemma get_minimal_hd:
  "r \<noteq> NoneT \<Longrightarrow> get_minimal r \<noteq> NoneT \<and> inorder r \<noteq> []
     \<and> hd (inorder r) = (key (get_minimal r), item (get_minimal r))"
  by (induction r) auto

lemma get_minimal_inorder:
  "r \<noteq> NoneT \<Longrightarrow> get_minimal r \<noteq> NoneT
     \<and> inorder r = (key (get_minimal r), item (get_minimal r)) # tl (inorder r)"
  using get_minimal_hd[of r] by (metis list.collapse)

lemma delete_finish_Return:
  assumes "delete_finish t n = Some (Return (t', n'))"
  shows "inorder t' = inorder t" and "n' = n"
    and "children_consistent t \<Longrightarrow> size_consistent t'"
proof -
  from assms obtain u where u: "rebalance (update_height t) = Some (Return u)"
    and t': "t' = u" and n': "n' = n"
    by (auto simp: delete_finish_def Let_def split: option.splits outcome.splits)
  show "inorder t' = inorder t" using rebalance_inorder[OF u] t' by simp
  show "n' = n" by (rule n')
  show "size_consistent t'" if "children_consistent t"
    using rebalance_size_consistent[OF u] that t' by (cases t) auto
qed

lemma delete_aux_cases:
  assumes "delete_aux n (AVLTreeNode ck cv l r h s) k = Some (Return (t', n'))"
  obtains
    (left) l' m where "k < ck" "delete_aux n l k = Some (Return (l', m))"
        "delete_finish (AVLTreeNode ck cv l' r h s) m = Some (Return (t', n'))"
  | (right) r' m where "ck < k" "delete_aux n r k = Some (Return (r', m))"
        "delete_finish (AVLTreeNode ck cv l r' h s) m = Some (Return (t', n'))"
  | (leaf) "k = ck" "l = NoneT" "r = NoneT" "t' = NoneT" "n' = n - 1"
  | (only_right) "k = ck" "l = NoneT" "r \<noteq> NoneT" "t' = r" "n' = n - 1"
  | (only_left) "k = ck" "l \<noteq> NoneT" "r = NoneT" "t' = l" "n' = n - 1"
  | (two) r' m where "k = ck" "l \<noteq> NoneT" "r \<noteq> NoneT"
        "delete_aux n r (key (get_minimal r)) = Some (Return (r', m))"
        "delete_finish
           (update_size (AVLTreeNode (key (get_minimal r)) (item (get_minimal r)) l r' h s)) m
         = Some (Return (t', n'))"
  using assms
  by (auto simp: Let_def get_successor_def split: if_splits option.splits outcome.splits)

lemma delete_aux_Return:
  "delete_aux n t k = Some (Return (t', n')) \<Longrightarrow> sorted_keys t
     \<Longrightarrow> inorder t' = del_list k (inorder t) \<and> n' = n - 1 \<and> k \<in> set (keys t)"
proof (induction t arbitrary: t' n' k)
  case NoneT
  then show ?case by simp
next
  case (AVLTreeNode ck cv l r h s)
  from AVLTreeNode.prems(2) have sl: "sorted_keys l" and sr: "sorted_keys r"
    and ll: "\<forall>a \<in> set (keys l). a < ck" and rr: "\<forall>b \<in> set (keys r). ck < b"
    by (auto simp: sorted_keys_Node)
  from ll have ckl: "ck \<notin> fst ` set (inorder l)" by (auto simp: keys_def)
  from AVLTreeNode.prems(1) show ?case
  proof (cases rule: delete_aux_cases)
    case (left l' m)
    from AVLTreeNode.IH(1)[OF left(2) sl] delete_finish_Return(1,2)[OF left(3)]
    show ?thesis by (auto simp: del_list_left keys_def)
  next
    case (right r' m)
    from ll right(1) have "k \<notin> fst ` set (inorder l)" by (fastforce simp: keys_def)
    with AVLTreeNode.IH(2)[OF right(2) sr] delete_finish_Return(1,2)[OF right(3)] right(1)
    show ?thesis by (auto simp: del_list_right keys_def)
  next
    case leaf
    then show ?thesis by simp
  next
    case only_right
    then show ?thesis by simp
  next
    case only_left
    with ckl show ?thesis by (simp add: del_list_right)
  next
    case (two r' m)
    from get_minimal_inorder[OF two(3)]
    have hd: "inorder r = (key (get_minimal r), item (get_minimal r)) # tl (inorder r)" by simp
    from AVLTreeNode.IH(2)[OF two(4) sr] hd
    have "inorder r' = tl (inorder r)" and "m = n - 1"
      by (metis del_list.simps(2))+
    with delete_finish_Return(1,2)[OF two(5)] hd two(1) ckl
    show ?thesis by (simp add: del_list_right)
  qed
qed

lemma delete_aux_size_consistent:
  "delete_aux n t k = Some (Return (t', n')) \<Longrightarrow> size_consistent t \<Longrightarrow> size_consistent t'"
proof (induction t arbitrary: t' n' k)
  case NoneT
  then show ?case by simp
next
  case (AVLTreeNode ck cv l r h s)
  from AVLTreeNode.prems(2) have sl: "size_consistent l" and sr: "size_consistent r" by auto
  from AVLTreeNode.prems(1) show ?case
  proof (cases rule: delete_aux_cases)
    case (left l' m)
    from AVLTreeNode.IH(1)[OF left(2) sl] delete_finish_Return(3)[OF left(3)] sr
    show ?thesis by simp
  next
    case (right r' m)
    from AVLTreeNode.IH(2)[OF right(2) sr] delete_finish_Return(3)[OF right(3)] sl
    show ?thesis by simp
  next
    case (two r' m)
    from AVLTreeNode.IH(2)[OF two(4) sr] delete_finish_Return(3)[OF two(5)] sl
    show ?thesis by simp
  qed (use sl sr in auto)
qed

lemma delete_aux_absent:
  "k \<notin> set (keys t) \<Longrightarrow> delete_aux n t k = Some (Raise Non_existent_item (Some (t, n)))"
  by (induction t) (auto simp: Let_def)

subsection \<open>Insertion and deletion return\<close>

lemma update_height_sel [simp]:
  "left (update_height t) = left t" "right (update_height t) = right t"
  "update_height t = NoneT \<longleftrightarrow> t = NoneT"
  by (cases t; simp)+

lemma dominant_update_height:
  "height_dominant (left t) \<Longrightarrow> height_dominant (right t) \<Longrightarrow> height_dominant (update_height t)"
  by (cases t) auto

lemma insert_finish_total:
  assumes "cur \<noteq> NoneT" and "height_dominant (left cur)" and "height_dominant (right cur)"
  shows "\<exists>t'. insert_finish cur n = Some (Return (t', n)) \<and> height_dominant t' \<and> t' \<noteq> NoneT"
proof -
  let ?c = "update_size (update_height cur)"
  from assms have "height_dominant ?c" "?c \<noteq> NoneT"
    by (simp_all add: dominant_update_height)
  from rebalance_total[OF this] obtain d where "rebalance ?c = Some (Return d)" "rebalanced ?c d"
    by blast
  then show ?thesis by (auto simp: insert_finish_def Let_def rebalanced_def)
qed

lemma delete_finish_total:
  assumes "cur \<noteq> NoneT" and "height_dominant (left cur)" and "height_dominant (right cur)"
  shows "\<exists>t'. delete_finish cur n = Some (Return (t', n)) \<and> height_dominant t' \<and> t' \<noteq> NoneT"
proof -
  let ?c = "update_height cur"
  from assms have "height_dominant ?c" "?c \<noteq> NoneT"
    by (simp_all add: dominant_update_height)
  from rebalance_total[OF this] obtain d where "rebalance ?c = Some (Return d)" "rebalanced ?c d"
    by blast
  then show ?thesis by (auto simp: delete_finish_def Let_def rebalanced_def)
qed

lemma insert_aux_total:
  "height_dominant t \<Longrightarrow> k \<notin> set (keys t)
     \<Longrightarrow> \<exists>t'. insert_aux n t k v = Some (Return (t', n + 1)) \<and> height_dominant t' \<and> t' \<noteq> NoneT"
proof (induction t)
  case NoneT
  from insert_finish_total[of "new_node k v" "n + 1"] show ?case
    by (simp add: new_node_def)
next
  case (AVLTreeNode ck cv l r h s)
  let ?cur = "AVLTreeNode ck cv l r h s"
  from AVLTreeNode.prems have dl: "height_dominant l" and dr: "height_dominant r"
    and kl: "k \<notin> set (keys l)" and kr: "k \<notin> set (keys r)" and ne: "k \<noteq> ck"
    by auto
  show ?case
  proof (cases "k > ck")
    case True
    from AVLTreeNode.IH(2)[OF dr kr] obtain r' where
      r': "insert_aux n r k v = Some (Return (r', n + 1))" "height_dominant r'" by blast
    from insert_finish_total[of "set_right ?cur r'" "n + 1"] dl r'(2) obtain t' where
      "insert_finish (set_right ?cur r') (n + 1) = Some (Return (t', n + 1))"
      "height_dominant t'" "t' \<noteq> NoneT" by auto
    with True r'(1) show ?thesis by (simp add: Let_def)
  next
    case False
    with ne have lt: "k < ck" by simp
    from AVLTreeNode.IH(1)[OF dl kl] obtain l' where
      l': "insert_aux n l k v = Some (Return (l', n + 1))" "height_dominant l'" by blast
    from insert_finish_total[of "set_left ?cur l'" "n + 1"] dr l'(2) obtain t' where
      "insert_finish (set_left ?cur l') (n + 1) = Some (Return (t', n + 1))"
      "height_dominant t'" "t' \<noteq> NoneT" by auto
    with False lt l'(1) show ?thesis by (simp add: Let_def)
  qed
qed

lemma delete_aux_total:
  "height_dominant t \<Longrightarrow> sorted_keys t \<Longrightarrow> k \<in> set (keys t)
     \<Longrightarrow> \<exists>t'. delete_aux n t k = Some (Return (t', n - 1)) \<and> height_dominant t'"
proof (induction t arbitrary: k)
  case NoneT
  then show ?case by simp
next
  case (AVLTreeNode ck cv l r h s)
  let ?cur = "AVLTreeNode ck cv l r h s"
  from AVLTreeNode.prems(1) have dl: "height_dominant l" and dr: "height_dominant r" by auto
  from AVLTreeNode.prems(2) have sl: "sorted_keys l" and sr: "sorted_keys r"
    and ll: "\<forall>a \<in> set (keys l). a < ck" and rr: "\<forall>b \<in> set (keys r). ck < b"
    by (auto simp: sorted_keys_Node)
  consider (lt) "k < ck" | (gt) "ck < k" | (eq) "k = ck" by (cases k ck rule: linorder_cases) auto
  then show ?case
  proof cases
    case lt
    with AVLTreeNode.prems(3) rr have "k \<in> set (keys l)" by auto
    from AVLTreeNode.IH(1)[OF dl sl this] obtain l' where
      l': "delete_aux n l k = Some (Return (l', n - 1))" "height_dominant l'" by blast
    from delete_finish_total[of "set_left ?cur l'" "n - 1"] dr l'(2) obtain t' where
      "delete_finish (set_left ?cur l') (n - 1) = Some (Return (t', n - 1))"
      "height_dominant t'" by auto
    with lt l'(1) show ?thesis by (simp add: Let_def)
  next
    case gt
    with AVLTreeNode.prems(3) ll have "k \<in> set (keys r)" by auto
    from AVLTreeNode.IH(2)[OF dr sr this] obtain r' where
      r': "delete_aux n r k = Some (Return (r', n - 1))" "height_dominant r'" by blast
    from delete_finish_total[of "set_right ?cur r'" "n - 1"] dl r'(2) obtain t' where
      "delete_finish (set_right ?cur r') (n - 1) = Some (Return (t', n - 1))"
      "height_dominant t'" by auto
    moreover from gt have "\<not> k < ck" by simp
    ultimately show ?thesis using gt r'(1) by (simp add: Let_def)
  next
    case eq
    show ?thesis
    proof (cases "l = NoneT \<or> r = NoneT")
      case True
      with eq dl dr show ?thesis by (auto simp: Let_def)
    next
      case False
      then have ln: "l \<noteq> NoneT" and rn: "r \<noteq> NoneT" by auto
      let ?sk = "key (get_minimal r)" and ?sv = "item (get_minimal r)"
      from get_minimal_hd[OF rn] have "?sk \<in> set (keys r)"
        by (metis keys_def list.set_sel(1) fst_conv image_eqI set_map)
      from AVLTreeNode.IH(2)[OF dr sr this] obtain r' where
        r': "delete_aux n r ?sk = Some (Return (r', n - 1))" "height_dominant r'" by blast
      from delete_finish_total[of "update_size (AVLTreeNode ?sk ?sv l r' h s)" "n - 1"] dl r'(2)
      obtain t' where
        "delete_finish (update_size (AVLTreeNode ?sk ?sv l r' h s)) (n - 1) = Some (Return (t', n - 1))"
        "height_dominant t'" by auto
      with eq ln rn r'(1) show ?thesis by (simp add: Let_def get_successor_def)
    qed
  qed
qed

lemma insert_aux_dominant:
  assumes "insert_aux n t k v = Some (Return (t', n'))" and "sorted_keys t" and "height_dominant t"
  shows "height_dominant t'"
proof -
  from insert_aux_Return[OF assms(1,2)] have "k \<notin> set (keys t)" by simp
  from insert_aux_total[OF assms(3) this, of n v] assms(1) show ?thesis by auto
qed

lemma delete_aux_dominant:
  assumes "delete_aux n t k = Some (Return (t', n'))" and "sorted_keys t" and "height_dominant t"
  shows "height_dominant t'"
proof -
  from delete_aux_Return[OF assms(1,2)] have "k \<in> set (keys t)" by simp
  from delete_aux_total[OF assms(3,2) this, of n] assms(1) show ?thesis by auto
qed

subsection \<open>Search by key and the contents\<close>

lemma get_node_map_of:
  "sorted_keys t \<Longrightarrow>
     (case get_tree_node_by_key_aux t k of Return nd \<Rightarrow> Return (item nd) | Raise e s \<Rightarrow> Raise e s)
     = (case map_of (inorder t) k of None \<Rightarrow> Raise Key_not_found (Some ()) | Some v \<Rightarrow> Return v)"
proof (induction t)
  case NoneT
  then show ?case by simp
next
  case (AVLTreeNode ck cv l r h s)
  from AVLTreeNode.prems have sl: "sorted_keys l" and sr: "sorted_keys r"
    and ll: "\<forall>a \<in> set (keys l). a < ck" and rr: "\<forall>b \<in> set (keys r). ck < b"
    by (auto simp: sorted_keys_Node)
  consider (lt) "k < ck" | (gt) "ck < k" | (eq) "k = ck" by (cases k ck rule: linorder_cases) auto
  then show ?case
  proof cases
    case lt
    with rr have "k \<notin> set (keys r)" by auto
    then have "map_of (inorder r) k = None" by (simp add: map_of_eq_None_iff keys_def)
    with lt AVLTreeNode.IH(1)[OF sl] show ?thesis
      by (auto simp: map_add_def split: option.splits)
  next
    case gt
    with ll have "k \<notin> set (keys l)" by auto
    then have "map_of (inorder l) k = None" by (simp add: map_of_eq_None_iff keys_def)
    with gt AVLTreeNode.IH(2)[OF sr] show ?thesis
      by (auto simp: map_add_def split: option.splits)
  next
    case eq
    with ll have "k \<notin> set (keys l)" by auto
    then have "map_of (inorder l) k = None" by (simp add: map_of_eq_None_iff keys_def)
    with eq show ?thesis by (simp add: map_add_def)
  qed
qed

lemma getitem_map_of:
  "sorted_keys (root t) \<Longrightarrow>
     getitem t k = (case map_of (inorder (root t)) k of
                      None \<Rightarrow> Raise Key_not_found (Some ()) | Some v \<Rightarrow> Return v)"
  using get_node_map_of[of "root t" k] by (simp add: getitem_def)

lemma map_of_del_list: "k' \<noteq> k \<Longrightarrow> map_of (del_list k xs) k' = map_of xs k'"
  by (induction xs) auto

lemma del_list_absent:
  "sorted_wrt (<) (map fst xs) \<Longrightarrow> (k :: 'k::linorder) \<notin> fst ` set (del_list k xs)"
proof (induction xs)
  case Nil
  then show ?case by simp
next
  case (Cons p xs)
  obtain a b where p: "p = (a, b)" by (cases p)
  show ?case
  proof (cases "k = a")
    case True
    with Cons.prems p have "\<forall>q \<in> set xs. k < fst q" by simp
    then have "k \<notin> fst ` set xs" by fastforce
    with True p show ?thesis by simp
  next
    case False
    with Cons p show ?thesis by simp
  qed
qed

subsection \<open>Rank lookup\<close>

lemma size_node_consistent: "size_consistent t \<Longrightarrow> size_node t = (count t, t)"
  by (cases t) (auto simp del: size_node.simps(2) simp: size_node_Node children_size_consistent)

lemma lookup_consistent:
  "size_consistent t \<Longrightarrow> 0 \<le> i \<Longrightarrow> i < count t
     \<Longrightarrow> \<exists>nd. lookup t i = Return (nd, t) \<and> (key nd, item nd) = inorder t ! nat i"
proof (induction t arbitrary: i)
  case NoneT
  then show ?case by simp
next
  case (AVLTreeNode k v l r h s)
  from AVLTreeNode.prems(1) have sl: "size_consistent l" and sr: "size_consistent r" by auto
  note sn = size_node_consistent[OF sl]
  consider (eq) "i = count l" | (lt) "i < count l" | (gt) "i > count l" by linarith
  then show ?case
  proof cases
    case eq
    then have "nat i = length (inorder l)" by (simp add: count_inorder)
    with eq show ?thesis
      by (simp add: sn Let_def nth_append)
  next
    case lt
    from AVLTreeNode.IH(1)[OF sl AVLTreeNode.prems(2) lt] obtain nd where
      "lookup l i = Return (nd, l)" "(key nd, item nd) = inorder l ! nat i" by blast
    moreover from lt AVLTreeNode.prems(2) have "nat i < length (inorder l)"
      by (simp add: count_inorder)
    ultimately show ?thesis using lt
      by (simp add: sn Let_def nth_append)
  next
    case gt
    with AVLTreeNode.prems(3) have "0 \<le> i - count l - 1" "i - count l - 1 < count r" by auto
    from AVLTreeNode.IH(2)[OF sr this] obtain nd where
      nd: "lookup r (i - count l - 1) = Return (nd, r)"
        "(key nd, item nd) = inorder r ! nat (i - count l - 1)" by blast
    from gt have "nat i - length (inorder l) = Suc (nat (i - count l - 1))"
      and "\<not> nat i < length (inorder l)"
      by (simp_all add: count_inorder)
    with nd gt show ?thesis
      by (simp add: sn Let_def nth_append)
  qed
qed


lemma range_aux_consistent:
  "size_consistent (root t) \<Longrightarrow> c = root t \<Longrightarrow> 0 \<le> i \<Longrightarrow> j < count (root t)
     \<Longrightarrow> range_aux t c i j res =
         Return (res @ map snd (take (nat (j + 1 - i)) (drop (nat i) (inorder (root t)))), t)"
proof (induction t c i j res rule: range_aux.induct)
  case (1 t c i j res)
  show ?case
  proof (cases "i > j")
    case True
    then show ?thesis by simp
  next
    case False
    with 1(4,5) have ne: "root t \<noteq> NoneT" by (cases "root t") auto
    from False 1(5) have "i < count (root t)" by simp
    from lookup_consistent[OF 1(2) 1(4) this] obtain nd where
      nd: "lookup (root t) i = Return (nd, root t)"
        "(key nd, item nd) = inorder (root t) ! nat i" by blast
    have t: "t\<lparr>root := root t\<rparr> = t" by simp
    from False ne 1(3) have "\<not> (c = NoneT \<or> j < i)" by simp
    from 1(1)[OF this nd(1) refl refl, unfolded t] 1(2,4,5)
    have rec: "range_aux t (root t) (i + 1) j (res @ [item nd]) =
        Return ((res @ [item nd]) @
          map snd (take (nat (j + 1 - (i + 1))) (drop (nat (i + 1)) (inorder (root t)))), t)"
      by simp
    from \<open>i < count (root t)\<close> 1(4) have lt: "nat i < length (inorder (root t))"
      by (simp add: count_inorder)
    from False 1(4) have n1: "nat (j + 1 - i) = Suc (nat (j + 1 - (i + 1)))" by simp
    from 1(4) have n2: "nat (i + 1) = Suc (nat i)" by simp
    have "map snd (take (nat (j + 1 - i)) (drop (nat i) (inorder (root t)))) =
        item nd # map snd (take (nat (j + 1 - (i + 1))) (drop (nat (i + 1)) (inorder (root t))))"
      unfolding n1 n2 using lt nd(2)
      by (subst Cons_nth_drop_Suc[symmetric]) (auto simp: prod_eq_iff dest: arg_cong[where f = snd])
    with rec nd(1) False ne 1(3) show ?thesis
      by (subst range_aux.simps) (simp add: t)
  qed
qed

subsection \<open>The iterator\<close>

lemma push_left_None: "push_left c st = [] \<longleftrightarrow> c = NoneT \<and> st = []"
  by (induction c arbitrary: st) auto


subsection \<open>The invariant of the reachable states\<close>

lemma sorted_del_list:
  "sorted_wrt (<) (map fst xs) \<Longrightarrow> sorted_wrt (<) (map fst (del_list k xs))"
proof (induction xs)
  case Nil
  then show ?case by simp
next
  case (Cons p xs)
  have "set (del_list k xs) \<subseteq> set xs" for xs :: "('a \<times> 'b) list"
    by (induction xs) (auto split: if_splits)
  with Cons show ?case by (cases p) (auto simp: subset_iff)
qed

lemma length_del_list:
  "k \<in> fst ` set xs \<Longrightarrow> length (del_list k xs) = length xs - 1"
proof (induction xs)
  case Nil
  then show ?case by simp
next
  case (Cons p xs)
  obtain a b where p: "p = (a, b)" by (cases p)
  show ?case
  proof (cases "k = a")
    case True
    with p show ?thesis by simp
  next
    case False
    with Cons.prems p have kin: "k \<in> fst ` set xs" by auto
    then have "xs \<noteq> []" by auto
    with Cons.IH[OF kin] False p show ?thesis by (cases xs) auto
  qed
qed

lemma lookup_Return_same:
  "size_consistent t \<Longrightarrow> lookup t i = Return (nd, t') \<Longrightarrow> t' = t"
proof (induction t arbitrary: i t')
  case NoneT
  then show ?case by simp
next
  case (AVLTreeNode k v l r h s)
  from AVLTreeNode.prems(1) have sl: "size_consistent l" and sr: "size_consistent r" by auto
  note sn = size_node_consistent[OF sl]
  from AVLTreeNode.prems(2) AVLTreeNode.IH(1)[OF sl] AVLTreeNode.IH(2)[OF sr]
  show ?case
    by (auto simp: sn Let_def split: if_splits outcome.splits)
qed

lemma range_aux_Return_same:
  "size_consistent (root t) \<Longrightarrow> range_aux t c i j res = Return (res', t') \<Longrightarrow> t' = t"
proof (induction t c i j res rule: range_aux.induct)
  case (1 t c i j res)
  show ?case
  proof (cases "c = NoneT \<or> i > j")
    case True
    with 1(3) show ?thesis by simp
  next
    case False
    with 1(3) obtain nd r where lk: "lookup (root t) i = Return (nd, r)"
      by (subst (asm) range_aux.simps) (auto split: outcome.splits)
    from lookup_Return_same[OF 1(2) lk] have r: "r = root t" .
    have t: "t\<lparr>root := root t\<rparr> = t" by simp
    from 1(3) False lk r have "range_aux t (root t) (i + 1) j (res @ [item nd]) = Return (res', t')"
      by (subst (asm) range_aux.simps) (simp add: t)
    with 1(1)[OF False lk[unfolded r] refl refl, unfolded t, OF 1(2)] show ?thesis by simp
  qed
qed

lemma reachable_invariant: "reachable t \<Longrightarrow> invariant t"
proof (induction rule: reachable.induct)
  case reach_init
  then show ?case by (simp add: invariant_def init_def sorted_keys_def)
next
  case (reach_setitem t k v t')
  from reach_setitem.hyps(2) obtain r n where
    ins: "insert_aux (length_field t) (root t) k v = Some (Return (r, n))"
    and t': "t' = \<lparr>root = r, length_field = n\<rparr>"
    by (auto simp: setitem_def mk_avl_def split: option.splits outcome.splits)
  from reach_setitem.IH have inv: "sorted_keys (root t)" "size_consistent (root t)"
    "length_field t = count (root t)" "height_dominant (root t)" by (auto simp: invariant_def)
  from insert_aux_Return[OF ins inv(1)] have io: "inorder r = ins_list k v (inorder (root t))"
    and n: "n = length_field t + 1" and nk: "k \<notin> set (keys (root t))" by auto
  from nk inv(1) have "sorted_keys r"
    unfolding sorted_keys_def keys_def io by (intro sorted_ins_list) auto
  moreover from insert_aux_size_consistent[OF ins inv(2)] have "size_consistent r" .
  moreover have "n = count r"
    by (simp add: n inv(3) count_inorder io length_ins_list)
  moreover from insert_aux_dominant[OF ins inv(1,4)] have "height_dominant r" .
  ultimately show ?case by (simp add: invariant_def t')
next
  case (reach_delitem t k t')
  from reach_delitem.hyps(2) obtain r n where
    del: "delete_aux (length_field t) (root t) k = Some (Return (r, n))"
    and t': "t' = \<lparr>root = r, length_field = n\<rparr>"
    by (auto simp: delitem_def mk_avl_def split: option.splits outcome.splits)
  from reach_delitem.IH have inv: "sorted_keys (root t)" "size_consistent (root t)"
    "length_field t = count (root t)" "height_dominant (root t)" by (auto simp: invariant_def)
  from delete_aux_Return[OF del inv(1)] have io: "inorder r = del_list k (inorder (root t))"
    and n: "n = length_field t - 1" and kin: "k \<in> set (keys (root t))" by auto
  from inv(1) have "sorted_keys r"
    unfolding sorted_keys_def keys_def io by (intro sorted_del_list) auto
  moreover from delete_aux_size_consistent[OF del inv(2)] have "size_consistent r" .
  moreover from kin have "inorder (root t) \<noteq> []" by (auto simp: keys_def)
  with kin have "n = count r"
    by (simp add: n inv(3) count_inorder io length_del_list keys_def of_nat_diff Suc_leI)
  moreover from delete_aux_dominant[OF del inv(1,4)] have "height_dominant r" .
  ultimately show ?case by (simp add: invariant_def t')
next
  case (reach_lookup t i nd r)
  then have "size_consistent (root t)" by (simp add: invariant_def)
  from lookup_Return_same[OF this reach_lookup.hyps(2)] reach_lookup.IH
  show ?case by simp
next
  case (reach_range t i j res t')
  then have sc: "size_consistent (root t)" by (simp add: invariant_def)
  have t: "t\<lparr>root := root t\<rparr> = t" by simp
  from reach_range.hyps(2) have "range_aux t (root t) i j [] = Return (res, t')"
    by (auto simp: range_between_def Let_def size_node_consistent[OF sc] t split: if_splits)
  from range_aux_Return_same[OF sc this] reach_range.IH show ?case by simp
qed

lemma iterate_pending: "iterate it = keys (current it) @ pending (stack it)"
proof (induction it rule: iterate.induct)
  case (1 it)
  show ?case
  proof (cases "next_key it")
    case None
    then have "push_left (current it) (stack it) = []"
      by (auto simp: next_key_def split: list.splits)
    then have "current it = NoneT \<and> stack it = []" by (simp add: push_left_None)
    with None show ?thesis by (subst iterate.simps) simp
  next
    case (Some p)
    obtain k it' where p: "p = (k, it')" by (cases p)
    from Some p obtain result st where ps: "push_left (current it) (stack it) = result # st"
      and k: "k = key result" and it': "it' = \<lparr>stack = st, current = right result\<rparr>"
      by (auto simp: next_key_def split: list.splits)
    from pending_push_left[of "current it" "stack it"] ps
    have "keys (current it) @ pending (stack it) = key result # keys (right result) @ pending st"
      by simp
    with 1[OF Some p[symmetric]] Some p k it' show ?thesis
      by (subst iterate.simps) simp
  qed
qed

lemma iterate_iter: "iterate (iter t) = keys (root t)"
  by (subst iterate_pending) (simp add: iter_def)

lemma reachable_insert_all:
  "reachable t \<Longrightarrow> insert_all t kvs = Some t' \<Longrightarrow> reachable t'"
proof (induction kvs arbitrary: t)
  case Nil
  then show ?case by simp
next
  case (Cons p kvs)
  obtain k v where p: "p = (k, v)" by (cases p)
  from Cons.prems(2) p obtain u where u: "setitem t k v = Some (Return u)"
    and rest: "insert_all u kvs = Some t'"
    by (auto split: option.splits outcome.splits)
  from Cons.IH[OF reach_setitem[OF Cons.prems(1) u] rest] show ?case .
qed

subsection \<open>Sequences of insertions and deletions return\<close>

lemma subtree_sorted: "c \<in> subtrees t \<Longrightarrow> sorted_keys t \<Longrightarrow> sorted_keys c"
  by (induction t) (auto simp: sorted_keys_Node)

lemma subtree_dominant: "c \<in> subtrees t \<Longrightarrow> height_dominant t \<Longrightarrow> height_dominant c"
  by (induction t) auto

lemma keys_del_list:
  "sorted_wrt (<) (map fst xs) \<Longrightarrow> fst ` set (del_list k xs) = fst ` set xs - {k :: 'k::linorder}"
proof (induction xs)
  case Nil
  then show ?case by simp
next
  case (Cons p xs)
  obtain a b where p: "p = (a, b)" by (cases p)
  show ?case
  proof (cases "k = a")
    case True
    with Cons.prems p have "\<forall>q \<in> set xs. k < fst q" by simp
    then have "k \<notin> fst ` set xs" by fastforce
    with True p show ?thesis by simp
  next
    case False
    with Cons p show ?thesis by auto
  qed
qed

lemma inorder_Nil: "inorder t = [] \<longleftrightarrow> t = NoneT"
  by (cases t) auto

lemma delitem_present:
  assumes "reachable t" and "k \<in> set (keys (root t))"
  shows "\<exists>t'. delitem t k = Some (Return t') \<and> reachable t'
           \<and> inorder (root t') = del_list k (inorder (root t))
           \<and> length_field t' = length_field t - 1"
proof -
  from reachable_invariant[OF assms(1)] have inv: "sorted_keys (root t)"
    "height_dominant (root t)" by (auto simp: invariant_def)
  from delete_aux_total[OF inv(2,1) assms(2), of "length_field t"] obtain r where
    r: "delete_aux (length_field t) (root t) k = Some (Return (r, length_field t - 1))" by blast
  then have d: "delitem t k = Some (Return \<lparr>root = r, length_field = length_field t - 1\<rparr>)"
    by (simp add: delitem_def mk_avl_def)
  from delete_aux_Return[OF r inv(1)] reach_delitem[OF assms(1) d] d show ?thesis by auto
qed

lemma setitem_absent:
  assumes "reachable t" and "k \<notin> set (keys (root t))"
  shows "\<exists>t'. setitem t k v = Some (Return t') \<and> reachable t'
           \<and> inorder (root t') = ins_list k v (inorder (root t))
           \<and> length_field t' = length_field t + 1"
proof -
  from reachable_invariant[OF assms(1)] have inv: "sorted_keys (root t)"
    "height_dominant (root t)" by (auto simp: invariant_def)
  from insert_aux_total[OF inv(2) assms(2), of "length_field t" v] obtain r where
    r: "insert_aux (length_field t) (root t) k v = Some (Return (r, length_field t + 1))" by blast
  then have d: "setitem t k v = Some (Return \<lparr>root = r, length_field = length_field t + 1\<rparr>)"
    by (simp add: setitem_def mk_avl_def)
  from insert_aux_Return[OF r inv(1)] reach_setitem[OF assms(1) d] d show ?thesis by auto
qed

lemma insert_all_total:
  "reachable t \<Longrightarrow> distinct (map fst kvs) \<Longrightarrow> fst ` set kvs \<inter> set (keys (root t)) = {}
     \<Longrightarrow> \<exists>t'. insert_all t kvs = Some t' \<and> reachable t'
           \<and> set (keys (root t')) = set (keys (root t)) \<union> fst ` set kvs
           \<and> length_field t' = length_field t + int (length kvs)"
proof (induction kvs arbitrary: t)
  case Nil
  then show ?case by simp
next
  case (Cons p kvs)
  obtain k v where p: "p = (k, v)" by (cases p)
  from Cons.prems(3) p have "k \<notin> set (keys (root t))" by auto
  from setitem_absent[OF Cons.prems(1) this, of v] obtain u where
    u: "setitem t k v = Some (Return u)" "reachable u"
      "inorder (root u) = ins_list k v (inorder (root t))"
      "length_field u = length_field t + 1" by blast
  from u(3) have ku: "set (keys (root u)) = insert k (set (keys (root t)))"
    by (simp add: keys_def set_ins_list)
  from Cons.prems(2,3) p ku have "distinct (map fst kvs)"
    "fst ` set kvs \<inter> set (keys (root u)) = {}" by auto
  from Cons.IH[OF u(2) this] obtain t' where
    "insert_all u kvs = Some t'" "reachable t'"
    "set (keys (root t')) = set (keys (root u)) \<union> fst ` set kvs"
    "length_field t' = length_field u + int (length kvs)" by blast
  with u(1,4) ku p show ?case by auto
qed

lemma delete_all_total:
  "reachable t \<Longrightarrow> distinct ds \<Longrightarrow> set ds \<subseteq> set (keys (root t))
     \<Longrightarrow> \<exists>t'. delete_all t ds = Some t' \<and> reachable t'
           \<and> set (keys (root t')) = set (keys (root t)) - set ds"
proof (induction ds arbitrary: t)
  case Nil
  then show ?case by simp
next
  case (Cons k ds)
  from Cons.prems(3) have "k \<in> set (keys (root t))" by simp
  from delitem_present[OF Cons.prems(1) this] obtain u where
    u: "delitem t k = Some (Return u)" "reachable u"
      "inorder (root u) = del_list k (inorder (root t))" by blast
  from reachable_invariant[OF Cons.prems(1)] have "sorted_wrt (<) (map fst (inorder (root t)))"
    by (simp add: invariant_def sorted_keys_def keys_def)
  from keys_del_list[OF this, of k] u(3)
  have ku: "set (keys (root u)) = set (keys (root t)) - {k}" by (simp add: keys_def)
  from Cons.prems(2,3) ku have "distinct ds" "set ds \<subseteq> set (keys (root u))" by auto
  from Cons.IH[OF u(2) this] obtain t' where
    "delete_all u ds = Some t'" "reachable t'"
    "set (keys (root t')) = set (keys (root u)) - set ds" by blast
  with u(1) ku show ?case by auto
qed

section \<open>Concrete runs\<close>

text \<open>
  Claim C1 (AVL balance on true heights in every reachable state) fails on the code.
  Eleven insertions into the empty tree give a root whose left subtree has true height 2
  and whose right subtree has true height 4. The cause is \<^verbatim>\<open>right_rotate\<close>, which writes
  the height of the promoted child before the height of the demoted node: the cached
  height of the subtree of 20 is 4 where its true height is 2, and the root sees the
  balance \<open>4 - 4 = 0\<close>.
\<close>

theorem avl_balance_broken_after_inserts:
  "(case insert_all init (map (\<lambda>k. (k, ())) [50::int, 30, 70, 20, 60, 80, 90, 10, 100, 95, 65]) of
      None \<Rightarrow> False
    | Some t \<Rightarrow>
        key (root t) = 50 \<and> true_height (left (root t)) = 2 \<and> true_height (right (root t)) = 4
        \<and> get_height (left (root t)) = 4 \<and> get_height (right (root t)) = 4
        \<and> \<not> balanced (root t))"
  by code_simp

text \<open>
  Claim C2 (every cached height is one more than the larger cached height of the
  children, after every public operation) fails on the code. Inserting 30, 20, 10 makes
  one right rotation at the root; \<^verbatim>\<open>right_rotate\<close> computes the height of the promoted
  node 20 while the demoted node 30 still has its old cached height 3, so the root is
  left with cached height 4 above two children of cached height 1.
\<close>

theorem cached_height_stale_after_right_rotate:
  "insert_all init [(30::int, ()), (20, ()), (10, ())] =
     Some \<lparr>root = AVLTreeNode 20 () (AVLTreeNode 10 () NoneT NoneT 1 1)
                    (AVLTreeNode 30 () NoneT NoneT 1 1) 4 3,
           length_field = 3\<rparr>
   \<and> \<not> height_consistent (AVLTreeNode (20::int) () (AVLTreeNode 10 () NoneT NoneT 1 1)
                    (AVLTreeNode 30 () NoneT NoneT 1 1) 4 3)"
  by code_simp

text \<open>
  Claim C4 (a range extraction with an index outside \<open>[0, N-1]\<close> fails, on the empty
  tree too) fails on the code. The assertion of \<^verbatim>\<open>range_between\<close> compares with
  \<open>N + 1\<close>: on the empty tree \<open>range_between(0, 0)\<close> passes it and returns the empty
  list. On a tree with one node, \<open>range_between(0, 1)\<close> passes the assertion as well and
  \<^verbatim>\<open>lookup\<close> then reads a field of \<^verbatim>\<open>None\<close>.
\<close>

theorem range_between_empty_tree_returns:
  "range_between (init :: (int, unit) avl) 0 0 = Return ([], init)
   \<and> range_between \<lparr>root = AVLTreeNode (1::int) () NoneT NoneT 1 1, length_field = 1\<rparr> 0 1
       = Raise Attribute_error
           (Some \<lparr>root = AVLTreeNode (1::int) () NoneT NoneT 1 1, length_field = 1\<rparr>)"
  by code_simp

section \<open>Claims about reachable states\<close>

text \<open>
  Claim C3. In every reachable state and for every index \<open>i\<close> with \<open>0 \<le> i < count()\<close>, the
  rank lookup at the root returns a node, and the key of that node is the key at position
  \<open>i\<close> of the sequence that the in-order iterator produces.
\<close>

theorem lookup_returns_key_at_rank:
  assumes "reachable t" and "0 \<le> i" and "i < len t"
  shows "\<exists>nd r. lookup (root t) i = Return (nd, r) \<and> key nd = iterate (iter t) ! nat i"
proof -
  from reachable_invariant[OF assms(1)] have sc: "size_consistent (root t)"
    and n: "length_field t = count (root t)" by (auto simp: invariant_def)
  from assms(3) n have "i < count (root t)" by (simp add: len_def)
  from lookup_consistent[OF sc assms(2) this] obtain nd where
    nd: "lookup (root t) i = Return (nd, root t)" "(key nd, item nd) = inorder (root t) ! nat i"
    by blast
  from \<open>i < count (root t)\<close> assms(2) have "nat i < length (inorder (root t))"
    by (simp add: count_inorder)
  then have "keys (root t) ! nat i = fst (inorder (root t) ! nat i)"
    by (simp add: keys_def)
  with nd show ?thesis by (auto simp: iterate_iter dest: arg_cong[where f = fst])
qed

theorem lookup_returns_key_at_rank_witness:
  "reachable (the (insert_all init [(5::int, ''e''), (3, ''c''), (8, ''h''), (1, ''a''), (4, ''d'')]))
   \<and> (0::int) \<le> 2
   \<and> 2 < len (the (insert_all init [(5::int, ''e''), (3, ''c''), (8, ''h''), (1, ''a''), (4, ''d'')]))
   \<and> (\<exists>nd r. lookup (root (the (insert_all init
          [(5::int, ''e''), (3, ''c''), (8, ''h''), (1, ''a''), (4, ''d'')]))) 2 = Return (nd, r)
        \<and> key nd = iterate (iter (the (insert_all init
          [(5::int, ''e''), (3, ''c''), (8, ''h''), (1, ''a''), (4, ''d'')]))) ! nat 2)"
proof -
  let ?kvs = "[(5::int, ''e''), (3, ''c''), (8, ''h''), (1, ''a''), (4, ''d'')]"
  have "insert_all init ?kvs \<noteq> None" by code_simp
  then obtain T where ev: "insert_all init ?kvs = Some T" by blast
  from reachable_insert_all[OF reach_init ev] have r: "reachable T" .
  have "len (the (insert_all init ?kvs)) = 5" by code_simp
  with ev have l: "len T = 5" by simp
  from lookup_returns_key_at_rank[OF r, of 2] l ev r show ?thesis by simp
qed

text \<open>
  Claim C5. In every reachable state the sequence of keys that the in-order iterator
  produces is strictly ascending, and its length is \<open>count()\<close>.
\<close>

theorem iterator_ascending_and_complete:
  assumes "reachable t"
  shows "sorted_wrt (<) (iterate (iter t)) \<and> int (length (iterate (iter t))) = len t"
  using reachable_invariant[OF assms]
  by (simp add: invariant_def iterate_iter sorted_keys_def len_def count_inorder keys_def)

theorem iterator_ascending_and_complete_witness:
  "reachable (the (insert_all init [(5::int, ''e''), (3, ''c''), (8, ''h''), (1, ''a''), (4, ''d'')]))
   \<and> sorted_wrt (<) (iterate (iter (the (insert_all init
        [(5::int, ''e''), (3, ''c''), (8, ''h''), (1, ''a''), (4, ''d'')]))))
   \<and> int (length (iterate (iter (the (insert_all init
        [(5::int, ''e''), (3, ''c''), (8, ''h''), (1, ''a''), (4, ''d'')])))))
     = len (the (insert_all init [(5::int, ''e''), (3, ''c''), (8, ''h''), (1, ''a''), (4, ''d'')]))"
proof -
  let ?kvs = "[(5::int, ''e''), (3, ''c''), (8, ''h''), (1, ''a''), (4, ''d'')]"
  have "insert_all init ?kvs \<noteq> None" by code_simp
  then obtain T where ev: "insert_all init ?kvs = Some T" by blast
  from reachable_insert_all[OF reach_init ev] have r: "reachable T" .
  from iterator_ascending_and_complete[OF r] ev r show ?thesis by simp
qed

text \<open>
  Claim C6. In every reachable state, inserting a key that is in the tree raises the
  \<^verbatim>\<open>ValueError\<close> for a duplicate, and the tree object is then in the state it had before
  the call: the same nodes with the same fields, and the same count.
\<close>

theorem insert_duplicate_fails_unchanged:
  assumes "reachable t" and "k \<in> set (keys (root t))"
  shows "setitem t k v = Some (Raise Duplicate_item (Some t))"
proof -
  from reachable_invariant[OF assms(1)] have "sorted_keys (root t)" by (simp add: invariant_def)
  from insert_aux_duplicate[OF this assms(2)] show ?thesis
    by (simp add: setitem_def mk_avl_def)
qed

theorem insert_duplicate_fails_unchanged_witness:
  "reachable (the (insert_all init [(5::int, ''e'')]))
   \<and> 5 \<in> set (keys (root (the (insert_all init [(5::int, ''e'')]))))
   \<and> setitem (the (insert_all init [(5::int, ''e'')])) 5 ''x''
       = Some (Raise Duplicate_item (Some (the (insert_all init [(5::int, ''e'')]))))"
proof -
  let ?kvs = "[(5::int, ''e'')]"
  have "insert_all init ?kvs \<noteq> None" by code_simp
  then obtain T where ev: "insert_all init ?kvs = Some T" by blast
  from reachable_insert_all[OF reach_init ev] have r: "reachable T" .
  have "5 \<in> set (keys (root (the (insert_all init ?kvs))))" by code_simp
  with ev have k: "5 \<in> set (keys (root T))" by simp
  from insert_duplicate_fails_unchanged[OF r k, of "''x''"] ev r k show ?thesis by simp
qed

text \<open>
  Claim C9. In every reachable state, a rank lookup with a valid index and a range
  extraction with valid ranks \<open>i \<le> j\<close> leave the tree object as it was: the same links and
  in every node the same key, item, cached height and cached size. (A valid index \<open>i\<close>
  alone is the pair \<open>(i, i)\<close>.) The range extraction returns the items at the ranks
  \<open>i, \<dots>, j\<close>.
\<close>

theorem queries_leave_tree_unchanged:
  assumes "reachable t" and "0 \<le> i" and "i \<le> j" and "j < len t"
  shows "(\<exists>nd. lookup (root t) i = Return (nd, root t))
       \<and> (\<exists>nd. lookup (root t) j = Return (nd, root t))
       \<and> range_between t i j =
           Return (map snd (take (nat (j + 1 - i)) (drop (nat i) (inorder (root t)))), t)"
proof -
  from reachable_invariant[OF assms(1)] have sc: "size_consistent (root t)"
    and n: "length_field t = count (root t)" by (auto simp: invariant_def)
  from assms n have j: "0 \<le> j" "j < count (root t)" and i: "i < count (root t)"
    by (simp_all add: len_def)
  have t: "t\<lparr>root := root t\<rparr> = t" by simp
  from lookup_consistent[OF sc assms(2) i]
  have "\<exists>nd. lookup (root t) i = Return (nd, root t)" by blast
  moreover from lookup_consistent[OF sc j]
  have "\<exists>nd. lookup (root t) j = Return (nd, root t)" by blast
  moreover from range_aux_consistent[OF sc refl assms(2) j(2), of "[]"] assms j i
  have "range_between t i j =
      Return (map snd (take (nat (j + 1 - i)) (drop (nat i) (inorder (root t)))), t)"
    by (simp add: range_between_def Let_def size_node_consistent[OF sc] t)
  ultimately show ?thesis by blast
qed

theorem queries_leave_tree_unchanged_witness:
  "reachable (the (insert_all init [(5::int, ''e''), (3, ''c''), (8, ''h''), (1, ''a''), (4, ''d'')]))
   \<and> (0::int) \<le> 1 \<and> (1::int) \<le> 3
   \<and> 3 < len (the (insert_all init [(5::int, ''e''), (3, ''c''), (8, ''h''), (1, ''a''), (4, ''d'')]))
   \<and> range_between (the (insert_all init
          [(5::int, ''e''), (3, ''c''), (8, ''h''), (1, ''a''), (4, ''d'')])) 1 3
       = Return ([''c'', ''d'', ''e''],
           the (insert_all init [(5::int, ''e''), (3, ''c''), (8, ''h''), (1, ''a''), (4, ''d'')]))"
proof -
  let ?kvs = "[(5::int, ''e''), (3, ''c''), (8, ''h''), (1, ''a''), (4, ''d'')]"
  have "insert_all init ?kvs \<noteq> None" by code_simp
  then obtain T where ev: "insert_all init ?kvs = Some T" by blast
  from reachable_insert_all[OF reach_init ev] have r: "reachable T" .
  have "len (the (insert_all init ?kvs)) = 5" by code_simp
  with ev have l: "len T = 5" by simp
  have "map snd (take (nat (3 + 1 - 1)) (drop (nat 1) (inorder (root (the (insert_all init ?kvs))))))
      = [''c'', ''d'', ''e'']" by code_simp
  with ev have c: "map snd (take (nat (3 + 1 - 1)) (drop (nat 1) (inorder (root T)))) = [''c'', ''d'', ''e'']"
    by simp
  from queries_leave_tree_unchanged[OF r, of 1 3] l ev r c show ?thesis by simp
qed

text \<open>
  Claim C10. In every reachable state the root is \<^verbatim>\<open>None\<close> exactly when the stored count
  is 0: \<^verbatim>\<open>is_empty()\<close> is true exactly when \<^verbatim>\<open>len\<close> is 0.
\<close>

theorem root_absent_iff_count_zero:
  assumes "reachable t"
  shows "(root t = NoneT \<longleftrightarrow> length_field t = 0) \<and> (is_empty t \<longleftrightarrow> len t = 0)"
proof -
  from reachable_invariant[OF assms] have n: "length_field t = count (root t)"
    by (simp add: invariant_def)
  have "count (root t) = 0 \<longleftrightarrow> root t = NoneT"
    by (cases "root t") (auto simp: count_inorder)
  with n show ?thesis by (auto simp: is_empty_def len_def)
qed

theorem root_absent_iff_count_zero_witness:
  "reachable (the (insert_all init [(5::int, ''e''), (3, ''c'')]))
   \<and> (root (the (insert_all init [(5::int, ''e''), (3, ''c'')])) = NoneT
        \<longleftrightarrow> length_field (the (insert_all init [(5::int, ''e''), (3, ''c'')])) = 0)
   \<and> (is_empty (the (insert_all init [(5::int, ''e''), (3, ''c'')]))
        \<longleftrightarrow> len (the (insert_all init [(5::int, ''e''), (3, ''c'')])) = 0)
   \<and> \<not> is_empty (the (insert_all init [(5::int, ''e''), (3, ''c'')]))"
proof -
  let ?kvs = "[(5::int, ''e''), (3, ''c'')]"
  have "insert_all init ?kvs \<noteq> None" by code_simp
  then obtain T where ev: "insert_all init ?kvs = Some T" by blast
  from reachable_insert_all[OF reach_init ev] have r: "reachable T" .
  have "\<not> is_empty (the (insert_all init ?kvs))" by code_simp
  with root_absent_iff_count_zero[OF r] ev r show ?thesis by simp
qed

section \<open>Claims about deletion\<close>

text \<open>
  Claim C7. In every reachable state:
  \<^item> deleting a key that is in the tree returns; afterwards the in-order sequence is the old
    one without the pair of that key, so the key is absent, \<open>count()\<close> is one less, and
    every other key is found with the item it had;
  \<^item> deleting a key that is not in the tree raises the \<^verbatim>\<open>ValueError\<close> for a missing item and
    the tree object is in the state it had before;
  \<^item> at a node of the tree with two children that holds the key to delete, the call
    deletes the smallest key of the right subtree from the right subtree, and goes on with
    the node holding that key and its item, over the old left subtree and the new right
    subtree.
\<close>

theorem delete_removes_exactly_the_key:
  assumes "reachable t"
  shows "(k \<in> set (keys (root t)) \<longrightarrow>
            (\<exists>t'. delitem t k = Some (Return t')
               \<and> inorder (root t') = del_list k (inorder (root t))
               \<and> k \<notin> set (keys (root t')) \<and> len t' = len t - 1
               \<and> (\<forall>k'. k' \<noteq> k \<longrightarrow> getitem t' k' = getitem t k')))
       \<and> (k \<notin> set (keys (root t)) \<longrightarrow> delitem t k = Some (Raise Non_existent_item (Some t)))
       \<and> (\<forall>cv l r h s n. AVLTreeNode k cv l r h s \<in> subtrees (root t) \<and> l \<noteq> NoneT \<and> r \<noteq> NoneT \<longrightarrow>
            (\<exists>r'. delete_aux n r (key (get_minimal r)) = Some (Return (r', n - 1))
               \<and> inorder r = (key (get_minimal r), item (get_minimal r)) # inorder r'
               \<and> delete_aux n (AVLTreeNode k cv l r h s) k =
                   delete_finish
                     (update_size (AVLTreeNode (key (get_minimal r)) (item (get_minimal r)) l r' h s))
                     (n - 1)))"
proof (intro conjI impI allI)
  from reachable_invariant[OF assms] have inv: "sorted_keys (root t)"
    "height_dominant (root t)" by (auto simp: invariant_def)
  {
    assume kin: "k \<in> set (keys (root t))"
    from delitem_present[OF assms kin] obtain t' where
      t': "delitem t k = Some (Return t')" "reachable t'"
        "inorder (root t') = del_list k (inorder (root t))"
        "length_field t' = length_field t - 1" by blast
    from inv(1) have so: "sorted_wrt (<) (map fst (inorder (root t)))"
      by (simp add: sorted_keys_def keys_def)
    from reachable_invariant[OF t'(2)] have st': "sorted_keys (root t')"
      by (simp add: invariant_def)
    have "k \<notin> set (keys (root t'))"
      using del_list_absent[OF so, of k] t'(3) by (simp add: keys_def)
    moreover have "getitem t' k' = getitem t k'" if "k' \<noteq> k" for k'
      using that by (simp add: getitem_map_of[OF st'] getitem_map_of[OF inv(1)] t'(3) map_of_del_list)
    ultimately show "\<exists>t'. delitem t k = Some (Return t')
        \<and> inorder (root t') = del_list k (inorder (root t))
        \<and> k \<notin> set (keys (root t')) \<and> len t' = len t - 1
        \<and> (\<forall>k'. k' \<noteq> k \<longrightarrow> getitem t' k' = getitem t k')"
      using t' by (auto simp: len_def)
  }
  {
    assume "k \<notin> set (keys (root t))"
    from delete_aux_absent[OF this] show "delitem t k = Some (Raise Non_existent_item (Some t))"
      by (simp add: delitem_def mk_avl_def)
  }
  {
    fix cv l r h s n
    assume a: "AVLTreeNode k cv l r h s \<in> subtrees (root t) \<and> l \<noteq> NoneT \<and> r \<noteq> NoneT"
    then have ln: "l \<noteq> NoneT" and rn: "r \<noteq> NoneT" by auto
    from a subtree_sorted[OF _ inv(1)] subtree_dominant[OF _ inv(2)]
    have "sorted_keys (AVLTreeNode k cv l r h s)" "height_dominant (AVLTreeNode k cv l r h s)"
      by blast+
    then have sr: "sorted_keys r" and dr: "height_dominant r"
      by (auto simp: sorted_keys_Node)
    let ?sk = "key (get_minimal r)" and ?sv = "item (get_minimal r)"
    from get_minimal_inorder[OF rn] have io: "inorder r = (?sk, ?sv) # tl (inorder r)" by simp
    then have "?sk \<in> set (keys r)"
      by (metis keys_def list.set_intros(1) fst_conv image_eqI set_map)
    from delete_aux_total[OF dr sr this, of n] obtain r' where
      r': "delete_aux n r ?sk = Some (Return (r', n - 1))" by blast
    from delete_aux_Return[OF r' sr] io have "inorder r' = tl (inorder r)"
      by (metis del_list.simps(2))
    with io have "inorder r = (?sk, ?sv) # inorder r'" by simp
    moreover have "delete_aux n (AVLTreeNode k cv l r h s) k =
        delete_finish (update_size (AVLTreeNode ?sk ?sv l r' h s)) (n - 1)"
      using ln rn r' by (simp add: Let_def get_successor_def)
    ultimately show "\<exists>r'. delete_aux n r ?sk = Some (Return (r', n - 1))
        \<and> inorder r = (?sk, ?sv) # inorder r'
        \<and> delete_aux n (AVLTreeNode k cv l r h s) k =
            delete_finish (update_size (AVLTreeNode ?sk ?sv l r' h s)) (n - 1)"
      using r' by blast
  }
qed

theorem delete_removes_exactly_the_key_witness:
  "reachable (the (insert_all init [(5::int, ''e''), (3, ''c''), (8, ''h''), (1, ''a''), (4, ''d'')]))
   \<and> 5 \<in> set (keys (root (the (insert_all init
         [(5::int, ''e''), (3, ''c''), (8, ''h''), (1, ''a''), (4, ''d'')]))))
   \<and> (\<exists>t'. delitem (the (insert_all init
         [(5::int, ''e''), (3, ''c''), (8, ''h''), (1, ''a''), (4, ''d'')])) 5 = Some (Return t')
        \<and> inorder (root t') = [(1, ''a''), (3, ''c''), (4, ''d''), (8, ''h'')]
        \<and> len t' = 4)
   \<and> 7 \<notin> set (keys (root (the (insert_all init
         [(5::int, ''e''), (3, ''c''), (8, ''h''), (1, ''a''), (4, ''d'')]))))
   \<and> delitem (the (insert_all init
         [(5::int, ''e''), (3, ''c''), (8, ''h''), (1, ''a''), (4, ''d'')])) 7
       = Some (Raise Non_existent_item (Some (the (insert_all init
         [(5::int, ''e''), (3, ''c''), (8, ''h''), (1, ''a''), (4, ''d'')]))))"
proof -
  let ?kvs = "[(5::int, ''e''), (3, ''c''), (8, ''h''), (1, ''a''), (4, ''d'')]"
  have "insert_all init ?kvs \<noteq> None" by code_simp
  then obtain T where ev: "insert_all init ?kvs = Some T" by blast
  from reachable_insert_all[OF reach_init ev] have r: "reachable T" .
  have "inorder (root (the (insert_all init ?kvs)))
      = [(1, ''a''), (3, ''c''), (4, ''d''), (5, ''e''), (8, ''h'')]" by code_simp
  with ev have io: "inorder (root T) = [(1, ''a''), (3, ''c''), (4, ''d''), (5, ''e''), (8, ''h'')]"
    by simp
  have "len (the (insert_all init ?kvs)) = 5" by code_simp
  with ev have l: "len T = 5" by simp
  from io have k5: "5 \<in> set (keys (root T))" and k7: "7 \<notin> set (keys (root T))"
    by (simp_all add: keys_def)
  from delete_removes_exactly_the_key[OF r, of 5] k5 io l
  have "\<exists>t'. delitem T 5 = Some (Return t')
      \<and> inorder (root t') = [(1, ''a''), (3, ''c''), (4, ''d''), (8, ''h'')] \<and> len t' = 4"
    by auto
  moreover from delete_removes_exactly_the_key[OF r, of 7] k7
  have "delitem T 7 = Some (Raise Non_existent_item (Some T))" by blast
  ultimately show ?thesis using ev r k5 k7 by simp
qed

text \<open>
  Claim C8. Inserting pairs with distinct keys into the empty tree and then deleting all
  these keys, in any order, gives the empty tree again: every call returns, and at the end
  the root is \<^verbatim>\<open>None\<close> and the count is 0.
\<close>

theorem insert_all_then_delete_all_is_empty:
  assumes "distinct (map fst kvs)" and "distinct ds" and "set ds = fst ` set kvs"
  shows "\<exists>t t'. insert_all init kvs = Some t \<and> len t = int (length kvs)
           \<and> delete_all t ds = Some t' \<and> root t' = NoneT \<and> len t' = 0 \<and> is_empty t'"
proof -
  have "fst ` set kvs \<inter> set (keys (root (init :: ('a, 'b) avl))) = {}"
    by (simp add: init_def)
  from insert_all_total[OF reach_init assms(1) this] obtain t where
    t: "insert_all init kvs = Some t" "reachable t"
      "set (keys (root t)) = fst ` set kvs" "length_field t = int (length kvs)"
    by (auto simp: init_def)
  from assms(3) t(3) have "set ds \<subseteq> set (keys (root t))" by simp
  from delete_all_total[OF t(2) assms(2) this] obtain t' where
    t': "delete_all t ds = Some t'" "reachable t'"
      "set (keys (root t')) = set (keys (root t)) - set ds" by blast
  from t'(3) t(3) assms(3) have "keys (root t') = []" by simp
  then have rn: "root t' = NoneT" by (simp add: keys_def inorder_Nil)
  from reachable_invariant[OF t'(2)] rn have "length_field t' = 0"
    by (simp add: invariant_def)
  with rn t t' show ?thesis by (auto simp: len_def is_empty_def)
qed

theorem insert_all_then_delete_all_is_empty_witness:
  "distinct (map fst [(5::int, ''e''), (3, ''c''), (8, ''h''), (1, ''a'')])
   \<and> distinct [3::int, 8, 1, 5]
   \<and> set [3::int, 8, 1, 5] = fst ` set [(5::int, ''e''), (3, ''c''), (8, ''h''), (1, ''a'')]
   \<and> (\<exists>t t'. insert_all init [(5::int, ''e''), (3, ''c''), (8, ''h''), (1, ''a'')] = Some t
         \<and> len t = 4 \<and> delete_all t [3, 8, 1, 5] = Some t' \<and> root t' = NoneT \<and> len t' = 0)"
proof -
  have h: "distinct (map fst [(5::int, ''e''), (3, ''c''), (8, ''h''), (1, ''a'')])"
    "distinct [3::int, 8, 1, 5]"
    "set [3::int, 8, 1, 5] = fst ` set [(5::int, ''e''), (3, ''c''), (8, ''h''), (1, ''a'')]"
    by auto
  from insert_all_then_delete_all_is_empty[OF h] h show ?thesis by auto
qed

end
